theory Spec2Isabelle
  imports Main "HOL-Library.Word"
begin

unbundle bit_operations_syntax

section \<open>The joystick input subsystem of clubmate-snake (input.c)\<close>

text \<open>
  A shallow embedding of \<^verbatim>\<open>input.c\<close>. The file keeps its state in four statics
  (\<^verbatim>\<open>joysticks\<close>, \<^verbatim>\<open>num_joysticks\<close>, \<^verbatim>\<open>udev_ctx\<close>, \<^verbatim>\<open>udev_monitor\<close>); every function
  below takes that state and returns the new one. The outcome of each system call is an
  argument of the function that makes the call.
\<close>

subsection \<open>Data\<close>

text \<open>
  Modelled from the spec: \<^verbatim>\<open>matelight.h\<close>, which declares \<^verbatim>\<open>struct joystick\<close>,
  \<^verbatim>\<open>MAX_JOYSTICKS\<close>, \<^verbatim>\<open>KEY_HISTORY_SIZE\<close> and the \<^verbatim>\<open>KEYPAD_*\<close> identifiers, is not among
  the sources. The record has the fields \<^verbatim>\<open>input.c\<close> reads and writes. The key
  identifiers are bit masks of unknown value, so they are a parameter of every function
  that names one. \<^verbatim>\<open>key_history\<close> is an array of \<^verbatim>\<open>KEY_HISTORY_SIZE\<close> identifiers and
  \<^verbatim>\<open>joysticks\<close> an array of \<^verbatim>\<open>MAX_JOYSTICKS\<close> records: the two capacities are the lengths
  of the lists. \<^verbatim>\<open>axes\<close> and \<^verbatim>\<open>buttons\<close> hold the byte that the \<^verbatim>\<open>char\<close> locals of
  \<^verbatim>\<open>open_joystick\<close> hold, whatever the signedness of \<^verbatim>\<open>char\<close> and the width of the two
  fields. Path and name are HOL strings: the model assumes that a path is shorter than
  the \<^verbatim>\<open>devnode\<close> buffer, so that \<^verbatim>\<open>strncpy\<close> stores it whole with its terminator and
  \<^verbatim>\<open>strcmp\<close> compares it as a string; a path that fills the buffer is outside the model.
\<close>

record keypad =
  KEYPAD_NONE :: int
  KEYPAD_UP :: int
  KEYPAD_DOWN :: int
  KEYPAD_LEFT :: int
  KEYPAD_RIGHT :: int
  KEYPAD_A :: int
  KEYPAD_B :: int
  KEYPAD_SELECT :: int
  KEYPAD_START :: int

record joystick =
  fd :: int
  devnode :: string
  dev :: nat
  axes :: "8 word"
  buttons :: "8 word"
  name :: string
  player :: int
  key_state :: int
  last_key_idx :: int
  last_key_val :: bool
  key_history :: "int list"

text \<open>
  The statics of \<^verbatim>\<open>input.c\<close>, and what the process holds outside them: the descriptors
  that are open (\<open>open_fds\<close>), the udev objects that have not been released
  (\<open>udev_refs\<close>), \<^verbatim>\<open>errno\<close> as \<^verbatim>\<open>open\<close>, \<^verbatim>\<open>ioctl\<close>, \<^verbatim>\<open>stat\<close> and the assignments of
  \<^verbatim>\<open>open_joystick\<close> leave it, and whether a store has landed outside the \<^verbatim>\<open>joysticks\<close>
  array (\<open>oob_write\<close>; C gives such a store no meaning, the model records it and leaves
  the table as it is). The player number is the \<^verbatim>\<open>int\<close> of the source, which stays far
  from its bounds (\<open>get_available_player_bound\<close> below).
\<close>

record state =
  joysticks :: "joystick list"
  num_joysticks :: nat
  udev_ctx :: "nat option"
  udev_monitor :: "nat option"
  open_fds :: "int set"
  udev_refs :: "nat set"
  errno :: int
  oob_write :: bool

definition MAX_JOYSTICKS :: "state \<Rightarrow> nat" where
  "MAX_JOYSTICKS s = length (joysticks s)"

definition KEY_HISTORY_SIZE :: "joystick \<Rightarrow> nat" where
  "KEY_HISTORY_SIZE j = length (key_history j)"

text \<open>\<^verbatim>\<open>static struct joystick joysticks[MAX_JOYSTICKS] = { 0 }\<close>: every field zero.\<close>

definition zero_joystick :: "nat \<Rightarrow> joystick" where
  "zero_joystick H =
     \<lparr>fd = 0, devnode = [], dev = 0, axes = 0, buttons = 0, name = [], player = 0,
      key_state = 0, last_key_idx = 0, last_key_val = False, key_history = replicate H 0\<rparr>"

definition init_state :: "nat \<Rightarrow> nat \<Rightarrow> state" where
  "init_state N H =
     \<lparr>joysticks = replicate N (zero_joystick H), num_joysticks = 0,
      udev_ctx = None, udev_monitor = None,
      open_fds = {0, 1, 2}, udev_refs = {}, errno = 0, oob_write = False\<rparr>"

text \<open>The outcome of a system call: it fails and sets \<^verbatim>\<open>errno\<close>, or it yields a value.\<close>

datatype 'a sysres = Err int | Ok 'a

definition EINVAL :: int where
  "EINVAL = 22"

definition ENOMEM :: int where
  "ENOMEM = 12"

definition set_slot :: "nat \<Rightarrow> joystick \<Rightarrow> state \<Rightarrow> state" where
  "set_slot i j s = s\<lparr>joysticks := (joysticks s)[i := j]\<rparr>"

definition sys_close :: "int \<Rightarrow> state \<Rightarrow> state" where
  "sys_close d s = s\<lparr>open_fds := open_fds s - {d}\<rparr>"

definition udev_unref :: "nat \<Rightarrow> state \<Rightarrow> state" where
  "udev_unref h s = s\<lparr>udev_refs := udev_refs s - {h}\<rparr>"

subsection \<open>input_reset\<close>

definition close_slot :: "nat \<Rightarrow> state \<Rightarrow> state" where
  "close_slot i s =
     (if fd (joysticks s ! i) \<noteq> - 1
      then set_slot i ((joysticks s ! i)\<lparr>fd := - 1\<rparr>) (sys_close (fd (joysticks s ! i)) s)
      else s)"

definition release_udev :: "state \<Rightarrow> state" where
  "release_udev s =
     (case udev_ctx s of
        None \<Rightarrow> s
      | Some c \<Rightarrow>
          let s1 = (case udev_monitor s of None \<Rightarrow> s | Some m \<Rightarrow> udev_unref m s);
              s2 = s1\<lparr>udev_monitor := None\<rparr>;
              s3 = udev_unref c s2
          in s3\<lparr>udev_ctx := None\<rparr>)"

definition input_reset :: "state \<Rightarrow> state" where
  "input_reset s =
     (let s1 = fold close_slot [0..<num_joysticks s] s;
          s2 = s1\<lparr>num_joysticks := 0\<rparr>
      in release_udev s2)"

subsection \<open>Slot allocation and player numbers\<close>

text \<open>The result is the index of the slot the returned pointer addresses, or \<open>None\<close> for \<^verbatim>\<open>NULL\<close>.\<close>

definition get_free_joystick :: "state \<Rightarrow> nat option \<times> state" where
  "get_free_joystick s =
     (case find (\<lambda>i. fd (joysticks s ! i) = - 1) [0..<num_joysticks s] of
        Some i \<Rightarrow> (Some i, s)
      | None \<Rightarrow>
          if num_joysticks s < MAX_JOYSTICKS s then
            let i = num_joysticks s;
                s1 = set_slot i ((joysticks s ! i)\<lparr>fd := - 1\<rparr>) s
            in (Some i, s1\<lparr>num_joysticks := Suc (num_joysticks s)\<rparr>)
          else (None, s))"

text \<open>
  The loop of \<^verbatim>\<open>get_available_player\<close>, from index \<open>i\<close> with candidate \<open>p\<close>. On a match
  the source sets \<^verbatim>\<open>i = 0\<close> and the \<^verbatim>\<open>for\<close> statement then increments it, so the scan
  goes on at index 1.
\<close>

function get_available_player_loop :: "joystick list \<Rightarrow> nat \<Rightarrow> nat \<Rightarrow> int \<Rightarrow> int" where
  "get_available_player_loop js n i p =
     (if i < n then
        if fd (js ! i) = - 1 then get_available_player_loop js n (Suc i) p
        else if player (js ! i) = p then get_available_player_loop js n (Suc 0) (p + 1)
        else get_available_player_loop js n (Suc i) p
      else p)"
  by pat_completeness auto
termination
proof (relation "measures [\<lambda>(js, n, i, p). card {k. k < n \<and> fd (js ! k) \<noteq> - 1 \<and> p \<le> player (js ! k)},
                          \<lambda>(js, n, i, p). n - i]")
  show "wf (measures [\<lambda>(js, n, i, p). card {k. k < n \<and> fd (js ! k) \<noteq> - 1 \<and> p \<le> player (js ! k)},
                          \<lambda>(js, n, i, p). n - i])"
    by simp
next
  fix js :: "joystick list" and n i :: nat and p :: int
  assume "i < n" "fd (js ! i) = - 1"
  then show "((js, n, Suc i, p), (js, n, i, p)) \<in> measures [\<lambda>(js, n, i, p). card {k. k < n \<and> fd (js ! k) \<noteq> - 1 \<and> p \<le> player (js ! k)},
                          \<lambda>(js, n, i, p). n - i]"
    by auto
next
  fix js :: "joystick list" and n i :: nat and p :: int
  assume a: "i < n" "fd (js ! i) \<noteq> - 1" "player (js ! i) = p"
  have "i \<in> {k. k < n \<and> fd (js ! k) \<noteq> - 1 \<and> p \<le> player (js ! k)}"
    and "i \<notin> {k. k < n \<and> fd (js ! k) \<noteq> - 1 \<and> p + 1 \<le> player (js ! k)}"
    using a by simp_all
  moreover have "{k. k < n \<and> fd (js ! k) \<noteq> - 1 \<and> p + 1 \<le> player (js ! k)}
          \<subseteq> {k. k < n \<and> fd (js ! k) \<noteq> - 1 \<and> p \<le> player (js ! k)}"
    by (rule Collect_mono) simp
  ultimately have "{k. k < n \<and> fd (js ! k) \<noteq> - 1 \<and> p + 1 \<le> player (js ! k)}
          \<subset> {k. k < n \<and> fd (js ! k) \<noteq> - 1 \<and> p \<le> player (js ! k)}"
    by blast
  moreover have "finite {k. k < n \<and> fd (js ! k) \<noteq> - 1 \<and> p \<le> player (js ! k)}"
    by simp
  ultimately have "card {k. k < n \<and> fd (js ! k) \<noteq> - 1 \<and> p + 1 \<le> player (js ! k)}
          < card {k. k < n \<and> fd (js ! k) \<noteq> - 1 \<and> p \<le> player (js ! k)}"
    by (rule psubset_card_mono [rotated])
  then show "((js, n, Suc 0, p + 1), (js, n, i, p)) \<in> measures [\<lambda>(js, n, i, p). card {k. k < n \<and> fd (js ! k) \<noteq> - 1 \<and> p \<le> player (js ! k)},
                          \<lambda>(js, n, i, p). n - i]"
    by simp
next
  fix js :: "joystick list" and n i :: nat and p :: int
  assume "i < n" "fd (js ! i) \<noteq> - 1" "player (js ! i) \<noteq> p"
  then show "((js, n, Suc i, p), (js, n, i, p)) \<in> measures [\<lambda>(js, n, i, p). card {k. k < n \<and> fd (js ! k) \<noteq> - 1 \<and> p \<le> player (js ! k)},
                          \<lambda>(js, n, i, p). n - i]"
    by auto
qed

definition get_available_player :: "state \<Rightarrow> int" where
  "get_available_player s = get_available_player_loop (joysticks s) (num_joysticks s) 0 1"

subsection \<open>open_joystick\<close>

text \<open>
  What the system answers to the calls of one \<^verbatim>\<open>open_joystick\<close>: \<^verbatim>\<open>open\<close> yields the new
  descriptor, the four \<^verbatim>\<open>ioctl\<close> requests their values. \<^verbatim>\<open>JSIOCGAXES\<close> and
  \<^verbatim>\<open>JSIOCGBUTTONS\<close> store one byte into the \<^verbatim>\<open>char\<close> locals \<^verbatim>\<open>axes\<close> and \<^verbatim>\<open>buttons\<close>. The
  two \<^verbatim>\<open>fcntl\<close> calls only switch the descriptor to non-blocking mode and leave no trace
  in the state.
\<close>

record open_env =
  sys_open :: "int sysres"
  JSIOCGVERSION :: "int sysres"
  JSIOCGAXES :: "8 word sysres"
  JSIOCGBUTTONS :: "8 word sysres"
  JSIOCGNAME :: "string sysres"

definition ioctl_or :: "'a sysres \<Rightarrow> 'a \<Rightarrow> state \<Rightarrow> 'a \<times> state" where
  "ioctl_or r d s = (case r of Err e \<Rightarrow> (d, s\<lparr>errno := e\<rparr>) | Ok v \<Rightarrow> (v, s))"

text \<open>Lines 137 to 149: the stores through the pointer \<^verbatim>\<open>joystick\<close>.\<close>

definition populate ::
  "keypad \<Rightarrow> int \<Rightarrow> string \<Rightarrow> nat \<Rightarrow> 8 word \<Rightarrow> 8 word \<Rightarrow> string \<Rightarrow> int \<Rightarrow> joystick
     \<Rightarrow> joystick" where
  "populate K fd' devnode' st_rdev axes' buttons' name' player' j =
     j\<lparr>fd := fd', devnode := devnode', dev := st_rdev, axes := axes', buttons := buttons',
       name := name', player := player', key_state := 0,
       last_key_idx := KEYPAD_NONE K, last_key_val := False\<rparr>"

text \<open>
  Line 150: \<^verbatim>\<open>memset(joysticks[num_joysticks].key_history, 0, ...)\<close>. The index is
  \<^verbatim>\<open>num_joysticks\<close>, not the slot \<^verbatim>\<open>joystick\<close> points to; when \<^verbatim>\<open>num_joysticks\<close> equals
  \<^verbatim>\<open>MAX_JOYSTICKS\<close> the store is outside the array.
\<close>

definition memset_key_history :: "nat \<Rightarrow> state \<Rightarrow> state" where
  "memset_key_history i s =
     (if i < MAX_JOYSTICKS s
      then set_slot i ((joysticks s ! i)\<lparr>key_history :=
             replicate (KEY_HISTORY_SIZE (joysticks s ! i)) 0\<rparr>) s
      else s\<lparr>oob_write := True\<rparr>)"

text \<open>Lines 122 to 154, once the version probe has let the device through.\<close>

definition open_joystick_slot ::
  "keypad \<Rightarrow> open_env \<Rightarrow> int \<Rightarrow> string \<Rightarrow> nat \<Rightarrow> state \<Rightarrow> bool \<times> state" where
  "open_joystick_slot K env fd' devnode' st_rdev s =
     (let (axes', s1) = ioctl_or (JSIOCGAXES env) 0 s;
          (buttons', s2) = ioctl_or (JSIOCGBUTTONS env) 0 s1;
          (name', s3) = ioctl_or (JSIOCGNAME env) [] s2;
          (slot, s4) = get_free_joystick s3
      in case slot of
           None \<Rightarrow> (False, (sys_close fd' s4)\<lparr>errno := ENOMEM\<rparr>)
         | Some i \<Rightarrow>
             let player' = get_available_player s4;
                 s5 = set_slot i (populate K fd' devnode' st_rdev axes' buttons' name' player'
                        (joysticks s4 ! i)) s4
             in (True, memset_key_history (num_joysticks s5) s5))"

definition open_joystick ::
  "keypad \<Rightarrow> open_env \<Rightarrow> string \<Rightarrow> nat \<Rightarrow> bool \<Rightarrow> state \<Rightarrow> bool \<times> state" where
  "open_joystick K env devnode' st_rdev check_joydev s =
     (case sys_open env of
        Err e \<Rightarrow> (False, s\<lparr>errno := e\<rparr>)
      | Ok fd' \<Rightarrow>
          let s0 = s\<lparr>open_fds := insert fd' (open_fds s)\<rparr> in
          if check_joydev then
            (case JSIOCGVERSION env of
               Err e \<Rightarrow> (False, (sys_close fd' (s0\<lparr>errno := e\<rparr>))\<lparr>errno := e\<rparr>)
             | Ok version \<Rightarrow>
                 if version = 0 then (False, s0\<lparr>errno := EINVAL\<rparr>)
                 else open_joystick_slot K env fd' devnode' st_rdev s0)
          else
            (case JSIOCGVERSION env of
               Err e \<Rightarrow> open_joystick_slot K env fd' devnode' st_rdev (s0\<lparr>errno := e\<rparr>)
             | Ok version \<Rightarrow> open_joystick_slot K env fd' devnode' st_rdev s0))"

text \<open>
  \<^verbatim>\<open>init_joystick\<close>: \<open>None\<close> is \<^verbatim>\<open>exit(EXIT_FAILURE)\<close>. The second argument is what
  \<^verbatim>\<open>stat\<close> answers, the device number \<^verbatim>\<open>st_rdev\<close> when it succeeds.
\<close>

definition init_joystick ::
  "keypad \<Rightarrow> string option \<Rightarrow> nat sysres \<Rightarrow> open_env \<Rightarrow> state \<Rightarrow> state option" where
  "init_joystick K devnode' st env s =
     (case devnode' of
        None \<Rightarrow> Some s
      | Some d \<Rightarrow>
          (case st of
             Err e \<Rightarrow> None
           | Ok st_rdev \<Rightarrow>
               (case open_joystick K env d st_rdev False s of
                  (True, s') \<Rightarrow> Some s'
                | (False, s') \<Rightarrow> None)))"

subsection \<open>Hotplug\<close>

text \<open>
  A \<^verbatim>\<open>struct udev_device\<close> as the code sees it: what the three getters return, and what
  the system answers when the code calls \<^verbatim>\<open>stat\<close> on its node and opens it.
\<close>

record udev_device =
  udev_device_get_devnode :: "string option"
  ID_INPUT_JOYSTICK :: "string option"
  udev_device_get_action :: "string option"
  sys_stat :: "nat sysres"
  sys_calls :: open_env

definition add_udev_device :: "keypad \<Rightarrow> udev_device option \<Rightarrow> state \<Rightarrow> state" where
  "add_udev_device K dev' s =
     (case dev' of
        None \<Rightarrow> s
      | Some d \<Rightarrow>
          (case udev_device_get_devnode d of
             None \<Rightarrow> s
           | Some dn \<Rightarrow>
               if dn = [] then s
               else
                 (case sys_stat d of
                    Err e \<Rightarrow> s\<lparr>errno := e\<rparr>
                  | Ok st_rdev \<Rightarrow>
                      if list_ex (\<lambda>i. fd (joysticks s ! i) \<noteq> - 1 \<and> dev (joysticks s ! i) = st_rdev)
                           [0..<num_joysticks s]
                      then s
                      else snd (open_joystick K (sys_calls d) dn st_rdev True s))))"

definition remove_matching :: "string \<Rightarrow> nat \<Rightarrow> state \<Rightarrow> state" where
  "remove_matching dn i s =
     (if fd (joysticks s ! i) = - 1 then s
      else if devnode (joysticks s ! i) = dn
      then set_slot i ((joysticks s ! i)\<lparr>fd := - 1\<rparr>) (sys_close (fd (joysticks s ! i)) s)
      else s)"

definition remove_udev_device :: "udev_device option \<Rightarrow> state \<Rightarrow> state" where
  "remove_udev_device dev' s =
     (case dev' of
        None \<Rightarrow> s
      | Some d \<Rightarrow>
          (case udev_device_get_devnode d of
             None \<Rightarrow> s
           | Some dn \<Rightarrow>
               if dn = [] then s
               else fold (remove_matching dn) [0..<num_joysticks s] s))"

text \<open>
  What udev answers to \<^verbatim>\<open>init_udev_hotplug\<close>: the three constructors (\<open>None\<close> is \<^verbatim>\<open>NULL\<close>)
  and, for each entry of the enumeration, the device made from it (\<open>None\<close> when the
  entry has no name or no device can be made).
\<close>

record hotplug_env =
  udev_new :: "nat option"
  udev_monitor_new_from_netlink :: "nat option"
  udev_enumerate_new :: "nat option"
  enumerated :: "udev_device option list"

definition init_udev_hotplug :: "keypad \<Rightarrow> hotplug_env \<Rightarrow> state \<Rightarrow> state option" where
  "init_udev_hotplug K env s =
     (let s1 = release_udev s in
      case udev_new env of
        None \<Rightarrow> None
      | Some c \<Rightarrow>
          let s2 = s1\<lparr>udev_ctx := Some c, udev_refs := insert c (udev_refs s1)\<rparr>;
              s3 = (case udev_monitor_new_from_netlink env of
                      Some m \<Rightarrow> s2\<lparr>udev_monitor := Some m, udev_refs := insert m (udev_refs s2)\<rparr>
                    | None \<Rightarrow> s2\<lparr>udev_monitor := None\<rparr>)
          in case udev_enumerate_new env of
               None \<Rightarrow> None
             | Some e \<Rightarrow> Some (fold (add_udev_device K) (enumerated env) s3))"

text \<open>One round of the loop of \<^verbatim>\<open>udev_monitor_poll\<close>, on the device just received.\<close>

definition udev_notify :: "keypad \<Rightarrow> udev_device option \<Rightarrow> state \<Rightarrow> state" where
  "udev_notify K dev' s =
     (case dev' of
        None \<Rightarrow> s
      | Some d \<Rightarrow>
          (case ID_INPUT_JOYSTICK d of
             None \<Rightarrow> s
           | Some val \<Rightarrow>
               (case udev_device_get_action d of
                  None \<Rightarrow> s
                | Some act \<Rightarrow>
                    if val = ''1'' then
                      if act = ''add'' then add_udev_device K dev' s
                      else if act = ''remove'' then remove_udev_device dev' s
                      else if act = ''change''
                      then add_udev_device K dev' (remove_udev_device dev' s)
                      else s
                    else s)))"

text \<open>
  The loop runs while \<^verbatim>\<open>poll\<close> reports a notification; the list holds what
  \<^verbatim>\<open>udev_monitor_receive_device\<close> returns for each one that is pending at the call.
\<close>

definition udev_monitor_poll :: "keypad \<Rightarrow> udev_device option list \<Rightarrow> state \<Rightarrow> state" where
  "udev_monitor_poll K pending s =
     (if udev_ctx s = None \<or> udev_monitor s = None then s
      else fold (udev_notify K) pending s)"

subsection \<open>read_joystick\<close>

text \<open>\<^verbatim>\<open>struct js_event\<close> and the event types of \<^verbatim>\<open>linux/joystick.h\<close>.\<close>

record js_event =
  ev_time :: "32 word"
  ev_value :: "16 word"
  ev_type :: "8 word"
  ev_number :: "8 word"

definition JS_EVENT_BUTTON :: "8 word" where
  "JS_EVENT_BUTTON = 0x01"

definition JS_EVENT_AXIS :: "8 word" where
  "JS_EVENT_AXIS = 0x02"

definition JS_EVENT_INIT :: "8 word" where
  "JS_EVENT_INIT = 0x80"

text \<open>
  The first loop: the first active slot whose \<^verbatim>\<open>read\<close> yields a whole event. \<open>rd\<close> is
  what \<^verbatim>\<open>read\<close> yields on a descriptor, \<open>None\<close> when it is not a whole event.
\<close>

fun read_scan :: "(int \<Rightarrow> js_event option) \<Rightarrow> joystick list \<Rightarrow> nat list \<Rightarrow> (nat \<times> js_event) option" where
  "read_scan rd js [] = None"
| "read_scan rd js (i # rest) =
     (if fd (js ! i) = - 1 then read_scan rd js rest
      else case rd (fd (js ! i)) of
             Some ev \<Rightarrow> Some (i, ev)
           | None \<Rightarrow> read_scan rd js rest)"

text \<open>The \<^verbatim>\<open>switch\<close> of lines 368 to 459.\<close>

definition decode :: "keypad \<Rightarrow> js_event \<Rightarrow> joystick \<Rightarrow> joystick" where
  "decode K ev j =
     (if ev_type ev AND NOT JS_EVENT_INIT = JS_EVENT_BUTTON then
        let key_idx =
              (if ev_number ev = 8 then KEYPAD_SELECT K
               else if ev_number ev = 9 then KEYPAD_START K
               else if ev_number ev = 0 then KEYPAD_B K
               else if ev_number ev = 1 then KEYPAD_A K
               else KEYPAD_NONE K)
        in if key_idx \<noteq> KEYPAD_NONE K then
             if ev_value ev \<noteq> 0
             then j\<lparr>last_key_idx := key_idx, last_key_val := True,
                    key_state := key_state j OR key_idx\<rparr>
             else j\<lparr>last_key_idx := key_idx, last_key_val := False,
                    key_state := key_state j AND NOT key_idx\<rparr>
           else j\<lparr>last_key_idx := KEYPAD_NONE K, last_key_val := False\<rparr>
      else if ev_type ev AND NOT JS_EVENT_INIT = JS_EVENT_AXIS then
        if ev_number ev = 0 then
          if sint (ev_value ev) \<le> - 1024
          then j\<lparr>last_key_idx := KEYPAD_LEFT K, last_key_val := True,
                 key_state := (key_state j OR KEYPAD_LEFT K) AND NOT (KEYPAD_RIGHT K)\<rparr>
          else if sint (ev_value ev) \<ge> 1024
          then j\<lparr>last_key_idx := KEYPAD_RIGHT K, last_key_val := True,
                 key_state := (key_state j AND NOT (KEYPAD_LEFT K)) OR KEYPAD_RIGHT K\<rparr>
          else j\<lparr>last_key_idx :=
                   (if key_state j AND KEYPAD_LEFT K \<noteq> 0 then KEYPAD_LEFT K
                    else if key_state j AND KEYPAD_RIGHT K \<noteq> 0 then KEYPAD_RIGHT K
                    else KEYPAD_NONE K),
                 last_key_val := False,
                 key_state := (key_state j AND NOT (KEYPAD_LEFT K)) AND NOT (KEYPAD_RIGHT K)\<rparr>
        else if ev_number ev = 1 then
          if sint (ev_value ev) \<le> - 1024
          then j\<lparr>last_key_idx := KEYPAD_UP K, last_key_val := True,
                 key_state := (key_state j OR KEYPAD_UP K) AND NOT (KEYPAD_DOWN K)\<rparr>
          else if sint (ev_value ev) \<ge> 1024
          then j\<lparr>last_key_idx := KEYPAD_DOWN K, last_key_val := True,
                 key_state := (key_state j AND NOT (KEYPAD_UP K)) OR KEYPAD_DOWN K\<rparr>
          else j\<lparr>last_key_idx :=
                   (if key_state j AND KEYPAD_UP K \<noteq> 0 then KEYPAD_UP K
                    else if key_state j AND KEYPAD_DOWN K \<noteq> 0 then KEYPAD_DOWN K
                    else KEYPAD_NONE K),
                 last_key_val := False,
                 key_state := (key_state j AND NOT (KEYPAD_UP K)) AND NOT (KEYPAD_DOWN K)\<rparr>
        else j\<lparr>last_key_idx := KEYPAD_NONE K, last_key_val := False\<rparr>
      else j\<lparr>last_key_idx := KEYPAD_NONE K, last_key_val := False\<rparr>)"

text \<open>
  Lines 461 to 464. \<^verbatim>\<open>memmove\<close> copies all entries but the last one place up, then the
  key goes to index 0.
\<close>

definition push_history :: "keypad \<Rightarrow> joystick \<Rightarrow> joystick" where
  "push_history K j =
     (if last_key_idx j \<noteq> KEYPAD_NONE K \<and> last_key_val j
      then j\<lparr>key_history := last_key_idx j # butlast (key_history j)\<rparr>
      else j)"

definition decode_event :: "keypad \<Rightarrow> js_event \<Rightarrow> joystick \<Rightarrow> joystick" where
  "decode_event K ev j = push_history K (decode K ev j)"

record read_env =
  pending :: "udev_device option list"
  sys_read :: "int \<Rightarrow> js_event option"

text \<open>The result is the slot stored in \<^verbatim>\<open>*joystick_ptr\<close> when the function returns true.\<close>

definition read_joystick :: "keypad \<Rightarrow> read_env \<Rightarrow> state \<Rightarrow> nat option \<times> state" where
  "read_joystick K env s =
     (let s1 = udev_monitor_poll K (pending env) s in
      if num_joysticks s1 \<le> 0 then (None, s1)
      else
        (case read_scan (sys_read env) (joysticks s1) [0..<num_joysticks s1] of
           None \<Rightarrow> (None, s1)
         | Some (i, ev) \<Rightarrow>
             (Some i, set_slot i (decode_event K ev (joysticks s1 ! i)) s1)))"

subsection \<open>Queries\<close>

text \<open>The counter is an \<^verbatim>\<open>int\<close> that never exceeds \<^verbatim>\<open>num_joysticks\<close>.\<close>

definition count_joysticks :: "state \<Rightarrow> int" where
  "count_joysticks s =
     fold (\<lambda>i cnt. if fd (joysticks s ! i) \<noteq> - 1 then cnt + 1 else cnt) [0..<num_joysticks s] 0"

text \<open>
  \<^verbatim>\<open>hi\<close> is a \<^verbatim>\<open>size_t\<close>, of 64 bits here: \<^verbatim>\<open>seq_length - 1\<close> and \<^verbatim>\<open>hi--\<close> wrap around at
  0. The sequence is a list, read at the indices below \<^verbatim>\<open>seq_length\<close>.
\<close>

definition SIZE_MAX :: nat where
  "SIZE_MAX = 2 ^ 64 - 1"

definition size_dec :: "nat \<Rightarrow> nat" where
  "size_dec n = (if n = 0 then SIZE_MAX else n - 1)"

function joystick_is_key_seq_loop :: "int list \<Rightarrow> int list \<Rightarrow> nat \<Rightarrow> nat \<Rightarrow> nat \<Rightarrow> bool" where
  "joystick_is_key_seq_loop h sq seq_length hi si =
     (if si < seq_length then
        if h ! hi \<noteq> sq ! si then False
        else joystick_is_key_seq_loop h sq seq_length (size_dec hi) (Suc si)
      else True)"
  by pat_completeness auto
termination
  by (relation "measure (\<lambda>(h, sq, seq_length, hi, si). seq_length - si)") auto

definition joystick_is_key_seq :: "joystick option \<Rightarrow> int list \<Rightarrow> nat \<Rightarrow> bool" where
  "joystick_is_key_seq joystick sq seq_length =
     (case joystick of
        None \<Rightarrow> False
      | Some j \<Rightarrow>
          if seq_length > KEY_HISTORY_SIZE j then False
          else joystick_is_key_seq_loop (key_history j) sq seq_length (size_dec seq_length) 0)"

subsection \<open>Runs of the subsystem\<close>

text \<open>
  The calls a client can make, with what the system answers to each. A run ends at the
  first call that terminates the process.
\<close>

datatype op =
    InputReset
  | GetFreeJoystick
  | OpenJoystick open_env string nat bool
  | InitJoystick "string option" "nat sysres" open_env
  | AddUdevDevice "udev_device option"
  | RemoveUdevDevice "udev_device option"
  | InitUdevHotplug hotplug_env
  | ReadJoystick read_env

fun step :: "keypad \<Rightarrow> op \<Rightarrow> state \<Rightarrow> state option" where
  "step K InputReset s = Some (input_reset s)"
| "step K GetFreeJoystick s = Some (snd (get_free_joystick s))"
| "step K (OpenJoystick env d st_rdev chk) s = Some (snd (open_joystick K env d st_rdev chk s))"
| "step K (InitJoystick d st env) s = init_joystick K d st env s"
| "step K (AddUdevDevice d) s = Some (add_udev_device K d s)"
| "step K (RemoveUdevDevice d) s = Some (remove_udev_device d s)"
| "step K (InitUdevHotplug env) s = init_udev_hotplug K env s"
| "step K (ReadJoystick env) s = Some (snd (read_joystick K env s))"

fun run :: "keypad \<Rightarrow> op list \<Rightarrow> state \<Rightarrow> state option" where
  "run K [] s = Some s"
| "run K (x # xs) s = (case step K x s of None \<Rightarrow> None | Some s' \<Rightarrow> run K xs s')"

text \<open>One choice of key identifiers, a bit each, for the examples.\<close>

definition keypad_bits :: keypad where
  "keypad_bits =
     \<lparr>KEYPAD_NONE = 0, KEYPAD_UP = 1, KEYPAD_DOWN = 2, KEYPAD_LEFT = 4, KEYPAD_RIGHT = 8,
      KEYPAD_A = 16, KEYPAD_B = 32, KEYPAD_SELECT = 64, KEYPAD_START = 128\<rparr>"

text \<open>A button event and an axis event, with their number and value.\<close>

definition button_event :: "8 word \<Rightarrow> 16 word \<Rightarrow> js_event" where
  "button_event n v = \<lparr>ev_time = 0, ev_value = v, ev_type = JS_EVENT_BUTTON, ev_number = n\<rparr>"

definition axis_event :: "8 word \<Rightarrow> 16 word \<Rightarrow> js_event" where
  "axis_event n v = \<lparr>ev_time = 0, ev_value = v, ev_type = JS_EVENT_AXIS, ev_number = n\<rparr>"

text \<open>A device that opens on descriptor \<open>d\<close> and answers every probe.\<close>

definition probe_ok :: "int \<Rightarrow> open_env" where
  "probe_ok d = \<lparr>sys_open = Ok d, JSIOCGVERSION = Ok 0x020100, JSIOCGAXES = Ok 2,
     JSIOCGBUTTONS = Ok 10, JSIOCGNAME = Ok ''pad''\<rparr>"

text \<open>
  A table of two slots with histories of three keys, after one device has been opened on
  descriptor 5; and a \<^verbatim>\<open>read_joystick\<close> that finds no notification pending and one event
  on descriptor 5.
\<close>

definition one_open :: state where
  "one_open = snd (open_joystick keypad_bits (probe_ok 5) ''/dev/input/js0'' 1 False (init_state 2 3))"

definition read_one :: "js_event \<Rightarrow> read_env" where
  "read_one ev = \<lparr>pending = [], sys_read = [5 \<mapsto> ev]\<rparr>"

text \<open>The table of \<open>one_open\<close> after a LEFT press has been read from its device.\<close>

definition left_pressed :: state where
  "left_pressed = snd (read_joystick keypad_bits (read_one (axis_event 0 (- 1200))) one_open)"

text \<open>The only slot of a table of one opened, and the first slot of a table of three.\<close>

definition sole_open :: state where
  "sole_open = snd (open_joystick keypad_bits (probe_ok 5) ''/dev/input/js0'' 1 False (init_state 1 3))"

definition first_of_three :: state where
  "first_of_three =
     snd (open_joystick keypad_bits (probe_ok 5) ''/dev/input/js0'' 1 False (init_state 3 3))"

definition hotplug_device :: "string \<Rightarrow> string \<Rightarrow> nat \<Rightarrow> open_env \<Rightarrow> udev_device" where
  "hotplug_device act path st_rdev env =
     \<lparr>udev_device_get_devnode = Some path, ID_INPUT_JOYSTICK = Some ''1'',
      udev_device_get_action = Some act, sys_stat = Ok st_rdev, sys_calls = env\<rparr>"

text \<open>
  A table of one slot that is active; the table of \<open>one_open\<close> after its device has been
  removed; and a run that opens a device, reads a press of A on it, removes it and opens
  another device.
\<close>

definition full_table :: state where
  "full_table =
     (init_state 1 3)\<lparr>joysticks := [(zero_joystick 3)\<lparr>fd := 5, player := 1\<rparr>],
       num_joysticks := 1, open_fds := {0, 1, 2, 5}\<rparr>"

definition one_removed :: state where
  "one_removed =
     remove_udev_device (Some (hotplug_device ''remove'' ''/dev/input/js0'' 1 (probe_ok 5))) one_open"

definition reopen_ops :: "op list" where
  "reopen_ops =
     [OpenJoystick (probe_ok 5) ''/dev/input/js0'' 1 False,
      ReadJoystick (read_one (button_event 1 1)),
      RemoveUdevDevice (Some (hotplug_device ''remove'' ''/dev/input/js0'' 1 (probe_ok 5))),
      OpenJoystick (probe_ok 6) ''/dev/input/js1'' 2 False]"

text \<open>A run that opens two devices and removes the first.\<close>

definition remove_first_ops :: "op list" where
  "remove_first_ops =
     [OpenJoystick (probe_ok 5) ''/dev/input/js0'' 1 False,
      OpenJoystick (probe_ok 6) ''/dev/input/js1'' 2 False,
      RemoveUdevDevice (Some (hotplug_device ''remove'' ''/dev/input/js0'' 1 (probe_ok 5)))]"

text \<open>
  The table of \<open>one_open\<close> with a udev context and a monitor in place, as
  \<^verbatim>\<open>init_udev_hotplug\<close> leaves it when the enumeration finds no device.
\<close>

definition enumerate_none :: hotplug_env where
  "enumerate_none =
     \<lparr>udev_new = Some 1, udev_monitor_new_from_netlink = Some 2, udev_enumerate_new = Some 3,
      enumerated = []\<rparr>"

definition hotplug_on :: state where
  "hotplug_on = one_open\<lparr>udev_ctx := Some 1, udev_monitor := Some 2, udev_refs := {1, 2}\<rparr>"

text \<open>A slot is active when it is below \<^verbatim>\<open>num_joysticks\<close> and its descriptor is not \<open>-1\<close>.\<close>

definition active :: "state \<Rightarrow> nat \<Rightarrow> bool" where
  "active s k = (k < num_joysticks s \<and> fd (joysticks s ! k) \<noteq> - 1)"

definition held :: "state \<Rightarrow> int \<Rightarrow> bool" where
  "held s p =
     list_ex (\<lambda>k. fd (joysticks s ! k) \<noteq> - 1 \<and> player (joysticks s ! k) = p) [0..<num_joysticks s]"

definition held_by_other :: "state \<Rightarrow> nat \<Rightarrow> int \<Rightarrow> bool" where
  "held_by_other s i p =
     list_ex (\<lambda>k. k \<noteq> i \<and> fd (joysticks s ! k) \<noteq> - 1 \<and> player (joysticks s ! k) = p)
       [0..<num_joysticks s]"

text \<open>\<open>p\<close> is the smallest positive integer that no active slot holds.\<close>

definition least_unused :: "state \<Rightarrow> int \<Rightarrow> bool" where
  "least_unused s p = (0 < p \<and> \<not> held s p \<and> (\<forall>q\<in>{1..<p}. held s q))"

text \<open>
  What every run keeps true of the table: the count is within the array; slot 0, when
  active, holds player 1 and no other active slot does; active slots hold different
  players; and there is no monitor without a context.
\<close>

definition registry_ok :: "state \<Rightarrow> bool" where
  "registry_ok s =
     (num_joysticks s \<le> MAX_JOYSTICKS s
      \<and> (active s 0 \<longrightarrow> player (joysticks s ! 0) = 1)
      \<and> (\<forall>k. 0 < k \<and> active s k \<longrightarrow> player (joysticks s ! k) \<noteq> 1)
      \<and> (\<forall>a b. active s a \<and> active s b \<and> a \<noteq> b \<longrightarrow>
            player (joysticks s ! a) \<noteq> player (joysticks s ! b))
      \<and> (udev_monitor s \<noteq> None \<longrightarrow> udev_ctx s \<noteq> None))"

text \<open>From \<open>s\<close> to \<open>s'\<close> no slot has become active and no active slot has changed its player.\<close>

definition keeps :: "state \<Rightarrow> state \<Rightarrow> bool" where
  "keeps s s' =
     (length (joysticks s') = length (joysticks s)
      \<and> (\<forall>k. active s' k \<longrightarrow> active s k \<and> player (joysticks s' ! k) = player (joysticks s ! k)))"

text \<open>From \<open>s\<close> to \<open>s'\<close> the array has kept its length and the count has not gone down.\<close>

definition grows :: "state \<Rightarrow> state \<Rightarrow> bool" where
  "grows s s' = (length (joysticks s') = length (joysticks s) \<and> num_joysticks s \<le> num_joysticks s')"

text \<open>The same slots are active in \<open>s\<close> and \<open>s'\<close>, with the same players.\<close>

definition same_players :: "state \<Rightarrow> state \<Rightarrow> bool" where
  "same_players s s' =
     (\<forall>k. active s' k = active s k
          \<and> (active s k \<longrightarrow> player (joysticks s' ! k) = player (joysticks s ! k)))"

text \<open>
  From \<open>s\<close> to \<open>s'\<close> slot \<open>i\<close>, which was not active, has been given the smallest positive
  integer that no active slot of \<open>s\<close> held, and no other slot has changed its activity or
  its player.
\<close>

definition opened :: "state \<Rightarrow> state \<Rightarrow> nat \<Rightarrow> bool" where
  "opened s s' i =
     (\<not> active s i \<and> i < num_joysticks s' \<and> least_unused s (player (joysticks s' ! i))
      \<and> (\<forall>k. k \<noteq> i \<longrightarrow> active s' k = active s k
             \<and> (active s k \<longrightarrow> player (joysticks s' ! k) = player (joysticks s ! k))))"

text \<open>
  From \<open>s\<close> to \<open>s'\<close> the table has stayed in order, the array has kept its length, the
  count has not gone down, the udev handles are the same and a store outside the array
  stays recorded.
\<close>

definition evolves :: "state \<Rightarrow> state \<Rightarrow> bool" where
  "evolves s s' =
     (registry_ok s' \<and> grows s s' \<and> (oob_write s \<longrightarrow> oob_write s')
      \<and> udev_ctx s' = udev_ctx s \<and> udev_monitor s' = udev_monitor s)"

declare get_available_player_loop.simps [simp del]
declare joystick_is_key_seq_loop.simps [simp del]

section \<open>Properties\<close>

subsection \<open>Bit masks and the events\<close>




lemma int_bits_set_right: "((ks AND NOT L) OR R) AND R = (R::int)"
  by (auto simp: bit_eq_iff bit_simps)

lemma int_bits_clear_left: "L AND R = 0 \<Longrightarrow> ((ks AND NOT L) OR R) AND L = (0::int)"
  by (auto simp: bit_eq_iff bit_simps)

lemma js_event_types [simp]:
  "JS_EVENT_AXIS \<noteq> JS_EVENT_BUTTON"
  by (simp add: JS_EVENT_AXIS_def JS_EVENT_BUTTON_def)


lemma axis_event_type:
  "ev_type (axis_event n v) AND NOT JS_EVENT_INIT = JS_EVENT_AXIS"
  by (simp add: axis_event_def JS_EVENT_AXIS_def JS_EVENT_INIT_def)

lemma button_event_type:
  "ev_type (button_event n v) AND NOT JS_EVENT_INIT = JS_EVENT_BUTTON"
  by (simp add: button_event_def JS_EVENT_BUTTON_def JS_EVENT_INIT_def)

lemma decode_axis_left:
  assumes "ev_type ev AND NOT JS_EVENT_INIT = JS_EVENT_AXIS" "ev_number ev = 0"
    "sint (ev_value ev) \<le> - 1024"
  shows "decode K ev j = j\<lparr>last_key_idx := KEYPAD_LEFT K, last_key_val := True,
          key_state := (key_state j OR KEYPAD_LEFT K) AND NOT (KEYPAD_RIGHT K)\<rparr>"
  using assms by (simp add: decode_def)


subsection \<open>The key history\<close>

lemma all_from_split:
  "si < L \<Longrightarrow> (\<forall>k. si \<le> k \<and> k < L \<longrightarrow> Q k) \<longleftrightarrow> Q si \<and> (\<forall>k. Suc si \<le> k \<and> k < L \<longrightarrow> Q k)"
  by (auto simp: Suc_le_eq) (metis le_neq_implies_less)

lemma key_seq_loop_iff:
  "si \<le> L \<Longrightarrow> (si < L \<longrightarrow> hi = L - 1 - si) \<Longrightarrow>
   joystick_is_key_seq_loop h sq L hi si = (\<forall>k. si \<le> k \<and> k < L \<longrightarrow> h ! (L - 1 - k) = sq ! k)"
proof (induction h sq L hi si rule: joystick_is_key_seq_loop.induct)
  case (1 h sq L hi si)
  show ?case
  proof (cases "si < L")
    case False
    then show ?thesis
      by (subst joystick_is_key_seq_loop.simps) simp
  next
    case True
    with "1.prems" have hi: "hi = L - 1 - si" by simp
    show ?thesis
    proof (cases "h ! hi = sq ! si")
      case False
      with True hi show ?thesis
        by (subst joystick_is_key_seq_loop.simps) auto
    next
      case eq: True
      have next_hi: "Suc si < L \<longrightarrow> size_dec hi = L - 1 - Suc si"
        using hi by (auto simp: size_dec_def)
      have le: "Suc si \<le> L"
        using True by simp
      have ih: "joystick_is_key_seq_loop h sq L (size_dec hi) (Suc si)
              = (\<forall>k. Suc si \<le> k \<and> k < L \<longrightarrow> h ! (L - 1 - k) = sq ! k)"
        using True eq by (intro "1.IH" [OF _ _ le next_hi]) simp_all
      have unroll: "joystick_is_key_seq_loop h sq L hi si
              = joystick_is_key_seq_loop h sq L (size_dec hi) (Suc si)"
        using True eq by (subst joystick_is_key_seq_loop.simps) simp
      have "h ! (L - 1 - si) = sq ! si"
        using eq hi by simp
      then show ?thesis
        unfolding unroll ih all_from_split [OF True, of "\<lambda>k. h ! (L - 1 - k) = sq ! k"]
        by blast
    qed
  qed
qed

lemma key_history_decode [simp]: "key_history (decode K ev j) = key_history j"
  by (simp add: decode_def Let_def)

lemma decode_button_press:
  "ev_value ev \<noteq> 0 \<Longrightarrow> ev_type ev AND NOT JS_EVENT_INIT = JS_EVENT_BUTTON \<Longrightarrow>
   (ev_number ev = 1 \<longrightarrow> KEYPAD_A K \<noteq> KEYPAD_NONE K \<longrightarrow>
      last_key_idx (decode K ev j) = KEYPAD_A K \<and> last_key_val (decode K ev j)) \<and>
   (ev_number ev = 0 \<longrightarrow> KEYPAD_B K \<noteq> KEYPAD_NONE K \<longrightarrow>
      last_key_idx (decode K ev j) = KEYPAD_B K \<and> last_key_val (decode K ev j))"
  by (simp add: decode_def Let_def)

lemma decode_event_press:
  "last_key_idx (decode K ev j) = k \<Longrightarrow> last_key_val (decode K ev j) \<Longrightarrow> k \<noteq> KEYPAD_NONE K \<Longrightarrow>
   key_history (decode_event K ev j) = k # butlast (key_history j)"
  by (simp add: decode_event_def push_history_def)

text \<open>
  C5. For a sequence of length at most the capacity of the history,
  \<^verbatim>\<open>joystick_is_key_seq\<close> is true exactly when \<open>history[L - 1 - k] = seq[k]\<close> for every
  \<open>k < L\<close>; for a longer one it is false. After presses of A, then B, then LEFT, the
  sequence A, B, LEFT matches and B, A, LEFT does not (the capacity being at least 3 and
  the identifiers of A, B, LEFT differing from NONE, A from B).
\<close>

theorem joystick_is_key_seq_matches:
  "(seq_length \<le> KEY_HISTORY_SIZE j \<longrightarrow>
      joystick_is_key_seq (Some j) sq seq_length
        = (\<forall>k. k < seq_length \<longrightarrow> key_history j ! (seq_length - 1 - k) = sq ! k))
   \<and> (KEY_HISTORY_SIZE j < seq_length \<longrightarrow> \<not> joystick_is_key_seq (Some j) sq seq_length)
   \<and> (3 \<le> KEY_HISTORY_SIZE j \<and> KEYPAD_A K \<noteq> KEYPAD_NONE K \<and> KEYPAD_B K \<noteq> KEYPAD_NONE K \<and>
      KEYPAD_LEFT K \<noteq> KEYPAD_NONE K \<and> KEYPAD_A K \<noteq> KEYPAD_B K \<and>
      va \<noteq> 0 \<and> vb \<noteq> 0 \<and> sint vl \<le> - 1024 \<longrightarrow>
        joystick_is_key_seq
          (Some (decode_event K (axis_event 0 vl)
             (decode_event K (button_event 0 vb) (decode_event K (button_event 1 va) j))))
          [KEYPAD_A K, KEYPAD_B K, KEYPAD_LEFT K] 3
        \<and> \<not> joystick_is_key_seq
          (Some (decode_event K (axis_event 0 vl)
             (decode_event K (button_event 0 vb) (decode_event K (button_event 1 va) j))))
          [KEYPAD_B K, KEYPAD_A K, KEYPAD_LEFT K] 3)"
proof -
  have c1: "seq_length \<le> KEY_HISTORY_SIZE j \<longrightarrow>
      joystick_is_key_seq (Some j) sq seq_length
        = (\<forall>k. k < seq_length \<longrightarrow> key_history j ! (seq_length - 1 - k) = sq ! k)"
    by (simp add: joystick_is_key_seq_def key_seq_loop_iff size_dec_def)
  have c2: "KEY_HISTORY_SIZE j < seq_length \<longrightarrow> \<not> joystick_is_key_seq (Some j) sq seq_length"
    by (simp add: joystick_is_key_seq_def)
  have c3: "joystick_is_key_seq
          (Some (decode_event K (axis_event 0 vl)
             (decode_event K (button_event 0 vb) (decode_event K (button_event 1 va) j))))
          [KEYPAD_A K, KEYPAD_B K, KEYPAD_LEFT K] 3
        \<and> \<not> joystick_is_key_seq
          (Some (decode_event K (axis_event 0 vl)
             (decode_event K (button_event 0 vb) (decode_event K (button_event 1 va) j))))
          [KEYPAD_B K, KEYPAD_A K, KEYPAD_LEFT K] 3"
    if a: "3 \<le> KEY_HISTORY_SIZE j \<and> KEYPAD_A K \<noteq> KEYPAD_NONE K \<and> KEYPAD_B K \<noteq> KEYPAD_NONE K \<and>
      KEYPAD_LEFT K \<noteq> KEYPAD_NONE K \<and> KEYPAD_A K \<noteq> KEYPAD_B K \<and>
      va \<noteq> 0 \<and> vb \<noteq> 0 \<and> sint vl \<le> - 1024"
  proof -
  define j1 where "j1 = decode_event K (button_event 1 va) j"
  define j2 where "j2 = decode_event K (button_event 0 vb) j1"
  define j3 where "j3 = decode_event K (axis_event 0 vl) j2"
  from a obtain x y z r where h: "key_history j = x # y # z # r"
    by (cases "key_history j"; cases "tl (key_history j)"; cases "tl (tl (key_history j))")
       (auto simp: KEY_HISTORY_SIZE_def)
  have h1: "key_history j1 = KEYPAD_A K # butlast (key_history j)"
    unfolding j1_def using a decode_button_press [of "button_event 1 va" K j]
    by (intro decode_event_press) (simp_all add: button_event_type, simp_all add: button_event_def)
  have h2: "key_history j2 = KEYPAD_B K # butlast (key_history j1)"
    unfolding j2_def using a decode_button_press [of "button_event 0 vb" K j1]
    by (intro decode_event_press) (simp_all add: button_event_type, simp_all add: button_event_def)
  have h3: "key_history j3 = KEYPAD_LEFT K # butlast (key_history j2)"
    unfolding j3_def
    using a decode_axis_left [where ev = "axis_event 0 vl" and K = K and j = j2, OF axis_event_type]
    by (intro decode_event_press) (simp_all add: axis_event_def)
  have "\<exists>rest. key_history j3 = KEYPAD_LEFT K # KEYPAD_B K # KEYPAD_A K # rest"
    by (simp add: h1 h2 h3 h)
  then obtain rest where hist: "key_history j3 = KEYPAD_LEFT K # KEYPAD_B K # KEYPAD_A K # rest"
    by blast
  have len: "KEY_HISTORY_SIZE j3 \<ge> 3"
    using hist by (auto simp: KEY_HISTORY_SIZE_def)
  have all3: "(\<forall>k<3. P k) = (P 0 \<and> P (Suc 0) \<and> P (Suc (Suc 0)))" for P :: "nat \<Rightarrow> bool"
    by (auto simp: less_Suc_eq numeral_3_eq_3)
  have "joystick_is_key_seq (Some j3) [KEYPAD_A K, KEYPAD_B K, KEYPAD_LEFT K] 3"
    using hist len
    by (auto simp add: joystick_is_key_seq_def key_seq_loop_iff size_dec_def all3 nth_Cons')
  moreover have "\<not> joystick_is_key_seq (Some j3) [KEYPAD_B K, KEYPAD_A K, KEYPAD_LEFT K] 3"
    using hist len a
    by (auto simp add: joystick_is_key_seq_def key_seq_loop_iff size_dec_def all3 nth_Cons')
  ultimately show ?thesis
    by (simp add: j1_def j2_def j3_def)
  qed
  from c1 c2 c3 show ?thesis
    by blast
qed

theorem joystick_is_key_seq_matches_witness:
  "joystick_is_key_seq (Some ((zero_joystick 3)\<lparr>key_history := [4, 32, 16]\<rparr>)) [16, 32, 4] 3
   \<and> \<not> joystick_is_key_seq (Some ((zero_joystick 3)\<lparr>key_history := [4, 32, 16]\<rparr>)) [32, 16, 4] 3
   \<and> \<not> joystick_is_key_seq (Some (zero_joystick 3)) [0, 0, 0, 0] 4
   \<and> joystick_is_key_seq
         (Some (decode_event keypad_bits (axis_event 0 (- 1200))
            (decode_event keypad_bits (button_event 0 1)
               (decode_event keypad_bits (button_event 1 1) (zero_joystick 3)))))
         [16, 32, 4] 3
   \<and> \<not> joystick_is_key_seq
         (Some (decode_event keypad_bits (axis_event 0 (- 1200))
            (decode_event keypad_bits (button_event 0 1)
               (decode_event keypad_bits (button_event 1 1) (zero_joystick 3)))))
         [32, 16, 4] 3"
proof -
  have all3: "(\<forall>k<3. P k) = (P 0 \<and> P (Suc 0) \<and> P (Suc (Suc 0)))" for P :: "nat \<Rightarrow> bool"
    by (auto simp: less_Suc_eq numeral_3_eq_3)
  show ?thesis
    using joystick_is_key_seq_matches [where j = "(zero_joystick 3)\<lparr>key_history := [4, 32, 16]\<rparr>"
        and sq = "[16, 32, 4]" and seq_length = 3]
      joystick_is_key_seq_matches [where j = "(zero_joystick 3)\<lparr>key_history := [4, 32, 16]\<rparr>"
        and sq = "[32, 16, 4]" and seq_length = 3]
      joystick_is_key_seq_matches [where j = "zero_joystick 3"
        and sq = "[0, 0, 0, 0]" and seq_length = 4 and K = keypad_bits and va = 1 and vb = 1
        and vl = "- 1200"]
    by (simp add: KEY_HISTORY_SIZE_def zero_joystick_def keypad_bits_def all3)
qed

lemma read_scan_Some:
  "read_scan rd js xs = Some (i, ev) \<Longrightarrow> i \<in> set xs \<and> fd (js ! i) \<noteq> - 1 \<and> rd (fd (js ! i)) = Some ev"
  by (induction xs) (auto split: if_splits option.splits)

lemma push_history_fields [simp]:
  "last_key_idx (push_history K j) = last_key_idx j"
  "last_key_val (push_history K j) = last_key_val j"
  "key_state (push_history K j) = key_state j"
  "fd (push_history K j) = fd j"
  "player (push_history K j) = player j"
  by (simp_all add: push_history_def)

lemma butlast_shift:
  "h \<noteq> [] \<Longrightarrow> length (k # butlast h) = length h \<and> (k # butlast h) ! 0 = k \<and>
     (\<forall>m. Suc m < length h \<longrightarrow> (k # butlast h) ! Suc m = h ! m)"
  by (simp add: nth_butlast)

text \<open>
  C6. When \<^verbatim>\<open>read_joystick\<close> has decoded an event on slot \<open>i\<close>: if the decoded key is a
  press of a key other than NONE, the history of the slot keeps its length, has the key
  at index 0 and every former entry one index higher (the last one is gone); otherwise
  the history is unchanged. The former history is the one after the hotplug drain that
  opens the call.
\<close>

theorem read_joystick_history:
  assumes rd: "read_joystick K env s = (Some i, s')"
    and wf: "num_joysticks (udev_monitor_poll K (pending env) s)
               \<le> MAX_JOYSTICKS (udev_monitor_poll K (pending env) s)"
    and cap: "0 < KEY_HISTORY_SIZE (joysticks (udev_monitor_poll K (pending env) s) ! i)"
  shows "(if last_key_val (joysticks s' ! i) \<and> last_key_idx (joysticks s' ! i) \<noteq> KEYPAD_NONE K
          then KEY_HISTORY_SIZE (joysticks s' ! i)
                 = KEY_HISTORY_SIZE (joysticks (udev_monitor_poll K (pending env) s) ! i)
             \<and> key_history (joysticks s' ! i) ! 0 = last_key_idx (joysticks s' ! i)
             \<and> (\<forall>m. Suc m < KEY_HISTORY_SIZE (joysticks s' ! i) \<longrightarrow>
                  key_history (joysticks s' ! i) ! Suc m
                    = key_history (joysticks (udev_monitor_poll K (pending env) s) ! i) ! m)
          else key_history (joysticks s' ! i)
                 = key_history (joysticks (udev_monitor_poll K (pending env) s) ! i))"
proof -
  define s1 where "s1 = udev_monitor_poll K (pending env) s"
  from rd obtain ev where sc: "read_scan (sys_read env) (joysticks s1) [0..<num_joysticks s1] = Some (i, ev)"
    and s': "s' = set_slot i (decode_event K ev (joysticks s1 ! i)) s1"
    by (auto simp: read_joystick_def Let_def s1_def split: if_splits option.splits)
  from read_scan_Some [OF sc] wf have i: "i < length (joysticks s1)"
    by (simp add: MAX_JOYSTICKS_def s1_def)
  have j': "joysticks s' ! i = decode_event K ev (joysticks s1 ! i)"
    using i by (simp add: s' set_slot_def)
  have ne: "key_history (joysticks s1 ! i) \<noteq> []"
    using cap by (simp add: KEY_HISTORY_SIZE_def s1_def)
  show ?thesis
    unfolding s1_def [symmetric] j'
    using butlast_shift [OF ne, of "last_key_idx (decode K ev (joysticks s1 ! i))"]
    by (simp add: decode_event_def push_history_def KEY_HISTORY_SIZE_def)
qed

theorem read_joystick_history_witness:
  "key_history (joysticks (snd (read_joystick keypad_bits (read_one (button_event 1 1)) one_open)) ! 0)
      ! 0 = 16
   \<and> key_history (joysticks (snd (read_joystick keypad_bits (read_one (button_event 1 0)) one_open)) ! 0)
      = [0, 0, 0]"
proof -
  have p: "read_joystick keypad_bits (read_one (button_event 1 1)) one_open
             = (Some 0, snd (read_joystick keypad_bits (read_one (button_event 1 1)) one_open))"
    and r: "read_joystick keypad_bits (read_one (button_event 1 0)) one_open
             = (Some 0, snd (read_joystick keypad_bits (read_one (button_event 1 0)) one_open))"
    unfolding one_open_def by code_simp+
  have poll: "udev_monitor_poll K (pending (read_one ev)) one_open = one_open" for ev K
    by (simp add: udev_monitor_poll_def read_one_def)
  have wf: "num_joysticks one_open \<le> MAX_JOYSTICKS one_open"
    and cap: "0 < KEY_HISTORY_SIZE (joysticks one_open ! 0)"
    and old: "key_history (joysticks one_open ! 0) = [0, 0, 0]"
    unfolding one_open_def by code_simp+
  have lp: "last_key_val (joysticks (snd (read_joystick keypad_bits (read_one (button_event 1 1)) one_open)) ! 0)"
    "last_key_idx (joysticks (snd (read_joystick keypad_bits (read_one (button_event 1 1)) one_open)) ! 0) = 16"
    "\<not> last_key_val (joysticks (snd (read_joystick keypad_bits (read_one (button_event 1 0)) one_open)) ! 0)"
    unfolding one_open_def by code_simp+
  show ?thesis
    using read_joystick_history [OF p] read_joystick_history [OF r] wf cap old lp
    by (simp add: poll keypad_bits_def)
qed

subsection \<open>Slot allocation\<close>

lemma find_upt_Some:
  "find P [0..<n] = Some i \<longleftrightarrow> i < n \<and> P i \<and> (\<forall>k<i. \<not> P k)"
  by (auto simp: find_Some_iff)

lemma find_upt_None:
  "find P [0..<n] = None \<longleftrightarrow> (\<forall>k<n. \<not> P k)"
  by (auto simp: find_None_iff)

lemma get_free_joystick_reuse:
  "i < num_joysticks s \<Longrightarrow> fd (joysticks s ! i) = - 1 \<Longrightarrow> \<forall>k<i. fd (joysticks s ! k) \<noteq> - 1 \<Longrightarrow>
   get_free_joystick s = (Some i, s)"
proof -
  assume "i < num_joysticks s" "fd (joysticks s ! i) = - 1" "\<forall>k<i. fd (joysticks s ! k) \<noteq> - 1"
  then have "find (\<lambda>i. fd (joysticks s ! i) = - 1) [0..<num_joysticks s] = Some i"
    by (simp add: find_upt_Some)
  then show ?thesis
    by (simp add: get_free_joystick_def)
qed

lemma get_free_joystick_grow:
  "\<forall>k<num_joysticks s. fd (joysticks s ! k) \<noteq> - 1 \<Longrightarrow> num_joysticks s < MAX_JOYSTICKS s \<Longrightarrow>
   get_free_joystick s =
     (Some (num_joysticks s),
      s\<lparr>joysticks := (joysticks s)[num_joysticks s := (joysticks s ! num_joysticks s)\<lparr>fd := - 1\<rparr>],
        num_joysticks := Suc (num_joysticks s)\<rparr>)"
proof -
  assume "\<forall>k<num_joysticks s. fd (joysticks s ! k) \<noteq> - 1" "num_joysticks s < MAX_JOYSTICKS s"
  moreover from this have "find (\<lambda>i. fd (joysticks s ! i) = - 1) [0..<num_joysticks s] = None"
    by (simp add: find_upt_None)
  ultimately show ?thesis
    by (simp add: get_free_joystick_def set_slot_def Let_def)
qed

lemma get_free_joystick_full:
  "\<forall>k<num_joysticks s. fd (joysticks s ! k) \<noteq> - 1 \<Longrightarrow> MAX_JOYSTICKS s \<le> num_joysticks s \<Longrightarrow>
   get_free_joystick s = (None, s)"
proof -
  assume "\<forall>k<num_joysticks s. fd (joysticks s ! k) \<noteq> - 1" "MAX_JOYSTICKS s \<le> num_joysticks s"
  moreover from this have "find (\<lambda>i. fd (joysticks s ! i) = - 1) [0..<num_joysticks s] = None"
    by (simp add: find_upt_None)
  ultimately show ?thesis
    by (simp add: get_free_joystick_def)
qed

lemma open_joystick_slot_full:
  assumes "\<forall>k<num_joysticks s. fd (joysticks s ! k) \<noteq> - 1" "MAX_JOYSTICKS s \<le> num_joysticks s"
  shows "open_joystick_slot K env d dn r s = (False, s\<lparr>open_fds := open_fds s - {d}, errno := ENOMEM\<rparr>)"
proof -
  have "get_free_joystick (s\<lparr>errno := e\<rparr>) = (None, s\<lparr>errno := e\<rparr>)" for e
    using assms by (intro get_free_joystick_full) (simp_all add: MAX_JOYSTICKS_def)
  moreover have "get_free_joystick s = (None, s)"
    using assms by (rule get_free_joystick_full)
  ultimately show ?thesis
    by (simp add: open_joystick_slot_def ioctl_or_def sys_close_def split: sysres.splits)
qed

text \<open>
  C7. \<^verbatim>\<open>get_free_joystick\<close> returns the lowest free slot below \<^verbatim>\<open>num_joysticks\<close> when there
  is one, and leaves the state as it is; with no free slot and \<^verbatim>\<open>num_joysticks\<close> below
  \<^verbatim>\<open>MAX_JOYSTICKS\<close> it marks the slot at \<^verbatim>\<open>num_joysticks\<close> free, counts it and returns it;
  otherwise it returns \<^verbatim>\<open>NULL\<close>. In that last case an \<^verbatim>\<open>open_joystick\<close> that has opened
  descriptor \<open>d\<close> and passed the version probe returns false, with \<open>d\<close> closed,
  \<^verbatim>\<open>errno\<close> set to \<^verbatim>\<open>ENOMEM\<close> and the table and the count as they were.
\<close>

theorem get_free_joystick_allocation:
  "(i < num_joysticks s \<and> fd (joysticks s ! i) = - 1 \<and> (\<forall>k<i. fd (joysticks s ! k) \<noteq> - 1) \<longrightarrow>
      get_free_joystick s = (Some i, s))
   \<and> ((\<forall>k<num_joysticks s. fd (joysticks s ! k) \<noteq> - 1) \<and> num_joysticks s < MAX_JOYSTICKS s \<longrightarrow>
      get_free_joystick s =
        (Some (num_joysticks s),
         s\<lparr>joysticks := (joysticks s)[num_joysticks s := (joysticks s ! num_joysticks s)\<lparr>fd := - 1\<rparr>],
           num_joysticks := Suc (num_joysticks s)\<rparr>))
   \<and> ((\<forall>k<num_joysticks s. fd (joysticks s ! k) \<noteq> - 1) \<and> MAX_JOYSTICKS s \<le> num_joysticks s \<longrightarrow>
      get_free_joystick s = (None, s)
      \<and> (sys_open env = Ok d \<and>
         \<not> (check_joydev \<and> (JSIOCGVERSION env = Ok 0 \<or> (\<exists>e. JSIOCGVERSION env = Err e))) \<longrightarrow>
           open_joystick K env dn r check_joydev s
             = (False, s\<lparr>open_fds := open_fds s - {d}, errno := ENOMEM\<rparr>)))"
proof -
  have c3: "open_joystick K env dn r check_joydev s
             = (False, s\<lparr>open_fds := open_fds s - {d}, errno := ENOMEM\<rparr>)"
    if full: "\<forall>k<num_joysticks s. fd (joysticks s ! k) \<noteq> - 1" "MAX_JOYSTICKS s \<le> num_joysticks s"
      and o: "sys_open env = Ok d"
      and v: "\<not> (check_joydev \<and> (JSIOCGVERSION env = Ok 0 \<or> (\<exists>e. JSIOCGVERSION env = Err e)))"
  proof -
    have "open_joystick_slot K env d dn r (s\<lparr>open_fds := insert d (open_fds s)\<rparr>)
            = (False, s\<lparr>open_fds := open_fds s - {d}, errno := ENOMEM\<rparr>)"
      using full by (subst open_joystick_slot_full) (simp_all add: MAX_JOYSTICKS_def)
    moreover have "open_joystick_slot K env d dn r (s\<lparr>open_fds := insert d (open_fds s), errno := e\<rparr>)
            = (False, s\<lparr>open_fds := open_fds s - {d}, errno := ENOMEM\<rparr>)" for e
      using full by (subst open_joystick_slot_full) (simp_all add: MAX_JOYSTICKS_def)
    ultimately show ?thesis
      using o v by (auto simp: open_joystick_def Let_def split: sysres.splits)
  qed
  show ?thesis
    using get_free_joystick_reuse [of i s] get_free_joystick_grow [of s]
      get_free_joystick_full [of s] c3
    by blast
qed

theorem get_free_joystick_allocation_witness:
  "get_free_joystick one_removed = (Some 0, one_removed)
   \<and> fst (get_free_joystick one_open) = Some 1
   \<and> num_joysticks (snd (get_free_joystick one_open)) = 2
   \<and> get_free_joystick full_table = (None, full_table)
   \<and> open_joystick keypad_bits (probe_ok 6) ''/dev/input/js1'' 2 True full_table
        = (False, full_table\<lparr>open_fds := open_fds full_table - {6}, errno := ENOMEM\<rparr>)"
proof -
  have a: "0 < num_joysticks one_removed" "fd (joysticks one_removed ! 0) = - 1"
    unfolding one_removed_def one_open_def by code_simp+
  have b: "num_joysticks one_open = 1" "fd (joysticks one_open ! 0) \<noteq> - 1"
    "num_joysticks one_open < MAX_JOYSTICKS one_open"
    unfolding one_open_def by code_simp+
  have c: "num_joysticks full_table = 1" "fd (joysticks full_table ! 0) \<noteq> - 1"
    "MAX_JOYSTICKS full_table \<le> num_joysticks full_table"
    by (simp_all add: full_table_def init_state_def MAX_JOYSTICKS_def)
  show ?thesis
    using get_free_joystick_allocation [where s = one_removed and i = 0]
      get_free_joystick_allocation [where s = one_open]
      get_free_joystick_allocation [where s = full_table and env = "probe_ok 6" and d = 6
        and check_joydev = True and K = keypad_bits and dn = "''/dev/input/js1''" and r = 2]
      a b c
    by (simp add: probe_ok_def)
qed

subsection \<open>Hotplug add\<close>

text \<open>
  C8. \<^verbatim>\<open>add_udev_device\<close> for a device whose \<^verbatim>\<open>st_rdev\<close> is that of an active slot returns
  the state it was given: no slot is allocated or changed, the count is the same and the
  device is not opened.
\<close>

theorem add_udev_device_duplicate:
  assumes "udev_device_get_devnode d = Some dn" "dn \<noteq> []" "sys_stat d = Ok r"
    and "i < num_joysticks s" "fd (joysticks s ! i) \<noteq> - 1" "dev (joysticks s ! i) = r"
  shows "add_udev_device K (Some d) s = s"
proof -
  have "list_ex (\<lambda>i. fd (joysticks s ! i) \<noteq> - 1 \<and> dev (joysticks s ! i) = r) [0..<num_joysticks s]"
    using assms(4-6) by (auto simp: list_ex_iff)
  then show ?thesis
    using assms(1-3) by (simp add: add_udev_device_def)
qed

theorem add_udev_device_duplicate_witness:
  "add_udev_device keypad_bits (Some (hotplug_device ''add'' ''/dev/input/js0'' 1 (probe_ok 6))) one_open
     = one_open"
proof -
  have "0 < num_joysticks one_open" "fd (joysticks one_open ! 0) \<noteq> - 1" "dev (joysticks one_open ! 0) = 1"
    unfolding one_open_def by code_simp+
  then show ?thesis
    by (intro add_udev_device_duplicate [where dn = "''/dev/input/js0''" and r = 1 and i = 0])
       (simp_all add: hotplug_device_def)
qed

subsection \<open>open_joystick\<close>

text \<open>
  C2. With \<^verbatim>\<open>check_joydev\<close> true and a version probe that yields 0, \<^verbatim>\<open>open_joystick\<close>
  returns false with \<^verbatim>\<open>errno\<close> set to \<^verbatim>\<open>EINVAL\<close> and the table untouched, but descriptor 5,
  which it has just opened, stays open: line 115 returns without \<^verbatim>\<open>close(fd)\<close>. When the
  probe fails (here with \<^verbatim>\<open>errno\<close> 25), lines 108 to 111 close the descriptor and keep
  the probe's \<^verbatim>\<open>errno\<close>.
\<close>

theorem open_joystick_version_zero_keeps_descriptor:
  "open_joystick keypad_bits ((probe_ok 5)\<lparr>JSIOCGVERSION := Ok 0\<rparr>) ''/dev/input/event3'' 7 True
       (init_state 2 3)
     = (False, (init_state 2 3)\<lparr>open_fds := {5, 0, 1, 2}, errno := EINVAL\<rparr>)
   \<and> open_joystick keypad_bits ((probe_ok 5)\<lparr>JSIOCGVERSION := Err 25\<rparr>) ''/dev/input/event3'' 7 True
       (init_state 2 3)
     = (False, (init_state 2 3)\<lparr>open_fds := {0, 1, 2}, errno := 25\<rparr>)"
  by (simp add: open_joystick_def probe_ok_def init_state_def sys_close_def)

text \<open>
  C3. A device is opened in slot 0, a press of A is read from it, it is removed, and a
  second device is opened. The second device gets slot 0 with its \<^verbatim>\<open>key_state\<close> zeroed,
  but its history still holds the press of A: the \<^verbatim>\<open>memset\<close> of line 150 clears the
  history of \<^verbatim>\<open>joysticks[num_joysticks]\<close>, which here is slot 1, not that of the slot just
  populated. In a table of one slot the same \<^verbatim>\<open>memset\<close> stores outside the array.
\<close>

theorem open_joystick_keeps_stale_history:
  "map_option (\<lambda>s. (num_joysticks s, fd (joysticks s ! 0), devnode (joysticks s ! 0),
                     key_state (joysticks s ! 0), key_history (joysticks s ! 0), oob_write s))
     (run keypad_bits reopen_ops (init_state 2 3))
     = Some (1, 6, ''/dev/input/js1'', 0, [16, 0, 0], False)
   \<and> oob_write (snd (open_joystick keypad_bits (probe_ok 5) ''/dev/input/js0'' 1 False (init_state 1 3)))"
  unfolding reopen_ops_def
  by code_simp

subsection \<open>Player numbers\<close>

lemma held_iff: "held s p \<longleftrightarrow> (\<exists>k. active s k \<and> player (joysticks s ! k) = p)"
  by (auto simp: held_def active_def list_ex_iff)

lemma get_available_player_loop_scan:
  assumes "\<forall>q. lo \<le> q \<and> q < p \<longrightarrow> (\<exists>k<n. fd (js ! k) \<noteq> - 1 \<and> player (js ! k) = q)"
    and "\<forall>k. 0 < k \<and> k < i \<and> k < n \<and> fd (js ! k) \<noteq> - 1 \<longrightarrow> player (js ! k) \<noteq> p"
    and "0 < i"
  shows "p \<le> get_available_player_loop js n i p
       \<and> (\<forall>q. lo \<le> q \<and> q < get_available_player_loop js n i p \<longrightarrow>
             (\<exists>k<n. fd (js ! k) \<noteq> - 1 \<and> player (js ! k) = q))
       \<and> (\<forall>k. 0 < k \<and> k < n \<and> fd (js ! k) \<noteq> - 1 \<longrightarrow>
             player (js ! k) \<noteq> get_available_player_loop js n i p)"
  using assms
proof (induction js n i p rule: get_available_player_loop.induct)
  case (1 js n i p)
  show ?case
  proof (cases "i < n")
    case False
    then have r: "get_available_player_loop js n i p = p"
      by (subst get_available_player_loop.simps) simp
    from False "1.prems" show ?thesis
      unfolding r by (metis not_less order_less_le_trans order_refl)
  next
    case True
    show ?thesis
    proof (cases "fd (js ! i) = - 1")
      case free: True
      have r: "get_available_player_loop js n i p = get_available_player_loop js n (Suc i) p"
        using True free by (subst get_available_player_loop.simps) simp
      have "\<forall>k. 0 < k \<and> k < Suc i \<and> k < n \<and> fd (js ! k) \<noteq> - 1 \<longrightarrow> player (js ! k) \<noteq> p"
        using "1.prems"(2) free by (metis less_Suc_eq)
      then show ?thesis
        unfolding r using "1.IH"(1) [OF True free "1.prems"(1)] by simp
    next
      case used: False
      show ?thesis
      proof (cases "player (js ! i) = p")
        case hit: True
        have r: "get_available_player_loop js n i p = get_available_player_loop js n (Suc 0) (p + 1)"
          using True used hit by (subst get_available_player_loop.simps) simp
        have h1: "\<forall>q. lo \<le> q \<and> q < p + 1 \<longrightarrow> (\<exists>k<n. fd (js ! k) \<noteq> - 1 \<and> player (js ! k) = q)"
        proof (intro allI impI)
          fix q assume q: "lo \<le> q \<and> q < p + 1"
          show "\<exists>k<n. fd (js ! k) \<noteq> - 1 \<and> player (js ! k) = q"
          proof (cases "q = p")
            case True
            with \<open>i < n\<close> used hit show ?thesis by blast
          next
            case False
            with q have "lo \<le> q \<and> q < p" by simp
            with "1.prems"(1) show ?thesis by blast
          qed
        qed
        have h2: "\<forall>k. 0 < k \<and> k < Suc 0 \<and> k < n \<and> fd (js ! k) \<noteq> - 1 \<longrightarrow> player (js ! k) \<noteq> p + 1"
          by auto
        have "p + 1 \<le> get_available_player_loop js n (Suc 0) (p + 1)
            \<and> (\<forall>q. lo \<le> q \<and> q < get_available_player_loop js n (Suc 0) (p + 1) \<longrightarrow>
                 (\<exists>k<n. fd (js ! k) \<noteq> - 1 \<and> player (js ! k) = q))
            \<and> (\<forall>k. 0 < k \<and> k < n \<and> fd (js ! k) \<noteq> - 1 \<longrightarrow>
                 player (js ! k) \<noteq> get_available_player_loop js n (Suc 0) (p + 1))"
          by (rule "1.IH"(2) [OF True used hit h1 h2]) simp
        then show ?thesis
          unfolding r by auto
      next
        case miss: False
        have r: "get_available_player_loop js n i p = get_available_player_loop js n (Suc i) p"
          using True used miss by (subst get_available_player_loop.simps) simp
        have "\<forall>k. 0 < k \<and> k < Suc i \<and> k < n \<and> fd (js ! k) \<noteq> - 1 \<longrightarrow> player (js ! k) \<noteq> p"
          using "1.prems"(2) miss by (metis less_Suc_eq)
        then show ?thesis
          unfolding r using "1.IH"(3) [OF True used miss "1.prems"(1)] by simp
      qed
    qed
  qed
qed


lemma get_available_player_least:
  assumes zero: "active s 0 \<longrightarrow> player (joysticks s ! 0) = 1"
  shows "least_unused s (get_available_player s)"
proof -
  define js where "js = joysticks s"
  define n where "n = num_joysticks s"
  define g where "g = get_available_player s"
  have g: "g = get_available_player_loop js n 0 1"
    by (simp add: g_def get_available_player_def js_def n_def)
  have act: "active s k \<longleftrightarrow> k < n \<and> fd (js ! k) \<noteq> - 1" for k
    by (simp add: active_def js_def n_def)
  consider (empty) "n = 0" | (free) "0 < n" "fd (js ! 0) = - 1"
    | (one) "0 < n" "fd (js ! 0) \<noteq> - 1" "player (js ! 0) = 1"
    using zero act [of 0] by (auto simp: js_def)
  then have "0 < g \<and> (\<forall>k. active s k \<longrightarrow> player (js ! k) \<noteq> g)
      \<and> (\<forall>q. 1 \<le> q \<and> q < g \<longrightarrow> (\<exists>k. active s k \<and> player (js ! k) = q))"
  proof cases
    case empty
    then have "g = 1"
      unfolding g by (subst get_available_player_loop.simps) simp
    with empty show ?thesis
      by (simp add: act)
  next
    case free
    then have r: "g = get_available_player_loop js n (Suc 0) 1"
      unfolding g by (subst get_available_player_loop.simps) simp
    have "1 \<le> g \<and> (\<forall>q. 1 \<le> q \<and> q < g \<longrightarrow> (\<exists>k<n. fd (js ! k) \<noteq> - 1 \<and> player (js ! k) = q))
        \<and> (\<forall>k. 0 < k \<and> k < n \<and> fd (js ! k) \<noteq> - 1 \<longrightarrow> player (js ! k) \<noteq> g)"
      unfolding r by (rule get_available_player_loop_scan) auto
    moreover have "0 < k" if "active s k" for k
      using that free by (cases k) (auto simp: act)
    ultimately show ?thesis
      by (auto simp: act)
  next
    case one
    then have r: "g = get_available_player_loop js n (Suc 0) 2"
      unfolding g by (subst get_available_player_loop.simps) simp
    have sc: "2 \<le> g \<and> (\<forall>q. 2 \<le> q \<and> q < g \<longrightarrow> (\<exists>k<n. fd (js ! k) \<noteq> - 1 \<and> player (js ! k) = q))
        \<and> (\<forall>k. 0 < k \<and> k < n \<and> fd (js ! k) \<noteq> - 1 \<longrightarrow> player (js ! k) \<noteq> g)"
      unfolding r by (rule get_available_player_loop_scan) auto
    have a: "player (js ! k) \<noteq> g" if "active s k" for k
    proof (cases "k = 0")
      case True
      with one sc show ?thesis by simp
    next
      case False
      with that sc show ?thesis by (simp add: act)
    qed
    have b: "\<exists>k. active s k \<and> player (js ! k) = q" if "1 \<le> q" "q < g" for q
    proof (cases "q = 1")
      case True
      with one have "active s 0 \<and> player (js ! 0) = q" by (simp add: act)
      then show ?thesis by blast
    next
      case False
      with that have "2 \<le> q \<and> q < g" by simp
      with sc obtain k where "k < n" "fd (js ! k) \<noteq> - 1" "player (js ! k) = q" by blast
      then have "active s k \<and> player (js ! k) = q" by (simp add: act)
      then show ?thesis by blast
    qed
    from sc a b show ?thesis by auto
  qed
  then show ?thesis
    unfolding least_unused_def held_iff g_def [symmetric] js_def [symmetric]
    by auto
qed

lemma get_available_player_loop_bound:
  "get_available_player_loop js n i p
     \<le> p + int (card {k. k < n \<and> fd (js ! k) \<noteq> - 1 \<and> p \<le> player (js ! k)})"
proof (induction js n i p rule: get_available_player_loop.induct)
  case (1 js n i p)
  show ?case
  proof (cases "i < n \<and> fd (js ! i) \<noteq> - 1 \<and> player (js ! i) = p")
    case True
    then have r: "get_available_player_loop js n i p = get_available_player_loop js n (Suc 0) (p + 1)"
      by (subst get_available_player_loop.simps) simp
    have "i \<in> {k. k < n \<and> fd (js ! k) \<noteq> - 1 \<and> p \<le> player (js ! k)}"
      and "i \<notin> {k. k < n \<and> fd (js ! k) \<noteq> - 1 \<and> p + 1 \<le> player (js ! k)}"
      using True by simp_all
    moreover have "{k. k < n \<and> fd (js ! k) \<noteq> - 1 \<and> p + 1 \<le> player (js ! k)}
          \<subseteq> {k. k < n \<and> fd (js ! k) \<noteq> - 1 \<and> p \<le> player (js ! k)}"
      by (rule Collect_mono) simp
    ultimately have "{k. k < n \<and> fd (js ! k) \<noteq> - 1 \<and> p + 1 \<le> player (js ! k)}
          \<subset> {k. k < n \<and> fd (js ! k) \<noteq> - 1 \<and> p \<le> player (js ! k)}"
      by blast
    then have "card {k. k < n \<and> fd (js ! k) \<noteq> - 1 \<and> p + 1 \<le> player (js ! k)}
          < card {k. k < n \<and> fd (js ! k) \<noteq> - 1 \<and> p \<le> player (js ! k)}"
      by (intro psubset_card_mono) simp_all
    moreover have "get_available_player_loop js n (Suc 0) (p + 1)
        \<le> p + 1 + int (card {k. k < n \<and> fd (js ! k) \<noteq> - 1 \<and> p + 1 \<le> player (js ! k)})"
      using True by (intro "1.IH"(2)) simp_all
    ultimately show ?thesis
      unfolding r by linarith
  next
    case False
    then consider "\<not> i < n" | "i < n" "fd (js ! i) = - 1"
      | "i < n" "fd (js ! i) \<noteq> - 1" "player (js ! i) \<noteq> p"
      by blast
    then show ?thesis
    proof cases
      case 1
      then show ?thesis
        by (subst get_available_player_loop.simps) simp
    next
      case 2
      then have "get_available_player_loop js n i p = get_available_player_loop js n (Suc i) p"
        by (subst get_available_player_loop.simps) simp
      with "1.IH"(1) [OF 2] show ?thesis by simp
    next
      case 3
      then have "get_available_player_loop js n i p = get_available_player_loop js n (Suc i) p"
        by (subst get_available_player_loop.simps) simp
      with "1.IH"(3) [OF 3] show ?thesis by simp
    qed
  qed
qed

text \<open>
  The candidate of \<^verbatim>\<open>get_available_player\<close> never exceeds the count by more than one, so
  the \<^verbatim>\<open>int\<close> of the source cannot overflow.
\<close>

lemma get_available_player_bound:
  "get_available_player s \<le> 1 + int (num_joysticks s)"
proof -
  let ?A = "{k. k < num_joysticks s \<and> fd (joysticks s ! k) \<noteq> - 1 \<and> 1 \<le> player (joysticks s ! k)}"
  have "card ?A \<le> card {k. k < num_joysticks s}"
    by (intro card_mono) auto
  then have "int (card ?A) \<le> int (num_joysticks s)"
    by simp
  with get_available_player_loop_bound [of "joysticks s" "num_joysticks s" 0 1] show ?thesis
    by (simp add: get_available_player_def)
qed

text \<open>
  The restart at index 1 shows in a table that no run produces: with player 2 in slot 0
  and player 1 in slot 1 the function returns 2, which slot 0 holds.
\<close>

lemma get_available_player_skips_slot_0:
  "get_available_player
     ((init_state 2 3)\<lparr>joysticks := [(zero_joystick 3)\<lparr>fd := 5, player := 2\<rparr>,
                                     (zero_joystick 3)\<lparr>fd := 6, player := 1\<rparr>],
                       num_joysticks := 2\<rparr>) = 2"
  by code_simp

lemma keeps_refl: "keeps s s"
  by (simp add: keeps_def)

lemma keeps_trans: "keeps s t \<Longrightarrow> keeps t u \<Longrightarrow> keeps s u"
  unfolding keeps_def by (metis (no_types, lifting))

lemma registry_ok_keeps:
  assumes ok: "registry_ok s" and k: "keeps s s'"
    and n: "num_joysticks s' \<le> MAX_JOYSTICKS s'"
    and u: "udev_monitor s' \<noteq> None \<longrightarrow> udev_ctx s' \<noteq> None"
  shows "registry_ok s'"
  unfolding registry_ok_def
proof (intro conjI allI impI)
  show "num_joysticks s' \<le> MAX_JOYSTICKS s'" by (rule n)
  show "player (joysticks s' ! 0) = 1" if "active s' 0"
    using that ok k by (auto simp: registry_ok_def keeps_def)
  show "player (joysticks s' ! k) \<noteq> 1" if "0 < k \<and> active s' k" for k
    using that ok k unfolding registry_ok_def keeps_def by metis
  show "player (joysticks s' ! a) \<noteq> player (joysticks s' ! b)"
    if "active s' a \<and> active s' b \<and> a \<noteq> b" for a b
    using that ok k unfolding registry_ok_def keeps_def by metis
  show "udev_ctx s' \<noteq> None" if "udev_monitor s' \<noteq> None"
    using that u by simp
qed

subsection \<open>What each function keeps of the table\<close>

lemma grows_refl: "grows s s"
  by (simp add: grows_def)

lemma grows_trans: "grows s t \<Longrightarrow> grows t u \<Longrightarrow> grows s u"
  by (auto simp: grows_def)

lemma keeps_free_slot:
  assumes "joysticks s' = (joysticks s)[i := (joysticks s ! i)\<lparr>fd := - 1\<rparr>]"
    and "num_joysticks s' = num_joysticks s"
  shows "keeps s s'"
  unfolding keeps_def
proof (rule conjI; (intro allI impI)?)
  show "length (joysticks s') = length (joysticks s)"
    using assms by simp
next
  fix k assume a: "active s' k"
  have "k \<noteq> i \<or> length (joysticks s) \<le> i"
  proof (rule ccontr)
    assume "\<not> (k \<noteq> i \<or> length (joysticks s) \<le> i)"
    then have "fd (joysticks s' ! k) = - 1"
      using assms by simp
    with a show False by (simp add: active_def)
  qed
  then have "joysticks s' ! k = joysticks s ! k"
    using assms by (auto simp: list_update_beyond)
  with a assms show "active s k \<and> player (joysticks s' ! k) = player (joysticks s ! k)"
    by (simp add: active_def)
qed

lemma keeps_update_slot:
  assumes "joysticks s' = (joysticks s)[i := j']"
    and "fd j' = fd (joysticks s ! i)" "player j' = player (joysticks s ! i)"
    and "num_joysticks s' = num_joysticks s"
  shows "keeps s s'"
  unfolding keeps_def
proof (rule conjI; (intro allI impI)?)
  show "length (joysticks s') = length (joysticks s)"
    using assms by simp
next
  fix k assume a: "active s' k"
  have "fd (joysticks s' ! k) = fd (joysticks s ! k) \<and> player (joysticks s' ! k) = player (joysticks s ! k)"
    using assms by (cases "k = i"; cases "i < length (joysticks s)") (auto simp: list_update_beyond)
  with a assms show "active s k \<and> player (joysticks s' ! k) = player (joysticks s ! k)"
    by (simp add: active_def)
qed

lemma keeps_same_table:
  "joysticks s' = joysticks s \<Longrightarrow> num_joysticks s' = num_joysticks s \<Longrightarrow> keeps s s'"
  by (simp add: keeps_def active_def)

lemma registry_ok_same_table:
  assumes "registry_ok s" "joysticks s' = joysticks s" "num_joysticks s' = num_joysticks s"
    "udev_ctx s' = udev_ctx s" "udev_monitor s' = udev_monitor s"
  shows "registry_ok s'"
  using assms by (simp add: registry_ok_def active_def MAX_JOYSTICKS_def)

text \<open>Closing slots.\<close>

lemma close_slot_frame:
  "keeps s (close_slot i s) \<and> num_joysticks (close_slot i s) = num_joysticks s
   \<and> udev_ctx (close_slot i s) = udev_ctx s \<and> udev_monitor (close_slot i s) = udev_monitor s
   \<and> oob_write (close_slot i s) = oob_write s"
proof (cases "fd (joysticks s ! i) \<noteq> - 1")
  case True
  then have "keeps s (close_slot i s)"
    by (intro keeps_free_slot [where i = i]) (simp_all add: close_slot_def set_slot_def sys_close_def)
  with True show ?thesis
    by (simp add: close_slot_def set_slot_def sys_close_def)
next
  case False
  then show ?thesis
    by (simp add: close_slot_def keeps_refl)
qed

lemma remove_matching_frame:
  "keeps s (remove_matching dn i s) \<and> num_joysticks (remove_matching dn i s) = num_joysticks s
   \<and> udev_ctx (remove_matching dn i s) = udev_ctx s
   \<and> udev_monitor (remove_matching dn i s) = udev_monitor s
   \<and> oob_write (remove_matching dn i s) = oob_write s"
proof (cases "fd (joysticks s ! i) \<noteq> - 1 \<and> devnode (joysticks s ! i) = dn")
  case True
  then have "keeps s (remove_matching dn i s)"
    by (intro keeps_free_slot [where i = i]) (simp_all add: remove_matching_def set_slot_def sys_close_def)
  with True show ?thesis
    by (simp add: remove_matching_def set_slot_def sys_close_def)
next
  case False
  then have "remove_matching dn i s = s"
    by (auto simp: remove_matching_def)
  then show ?thesis
    by (simp add: keeps_refl)
qed

lemma fold_frame:
  assumes step: "\<And>i s. keeps s (f i s) \<and> num_joysticks (f i s) = num_joysticks s
      \<and> udev_ctx (f i s) = udev_ctx s \<and> udev_monitor (f i s) = udev_monitor s
      \<and> oob_write (f i s) = oob_write s"
  shows "keeps s (fold f xs s) \<and> num_joysticks (fold f xs s) = num_joysticks s
      \<and> udev_ctx (fold f xs s) = udev_ctx s \<and> udev_monitor (fold f xs s) = udev_monitor s
      \<and> oob_write (fold f xs s) = oob_write s"
proof (induction xs arbitrary: s)
  case Nil
  show ?case by (simp add: keeps_refl)
next
  case (Cons x xs)
  from step [of s x] Cons.IH [of "f x s"] show ?case
    by (auto intro: keeps_trans)
qed

lemma keeps_ok:
  assumes "registry_ok s" "keeps s s'" "num_joysticks s' = num_joysticks s"
    "udev_ctx s' = udev_ctx s" "udev_monitor s' = udev_monitor s"
  shows "registry_ok s'"
proof (rule registry_ok_keeps [OF assms(1,2)])
  from assms show "num_joysticks s' \<le> MAX_JOYSTICKS s'"
    by (simp add: registry_ok_def keeps_def MAX_JOYSTICKS_def)
  from assms show "udev_monitor s' \<noteq> None \<longrightarrow> udev_ctx s' \<noteq> None"
    by (simp add: registry_ok_def)
qed

lemma remove_udev_device_frame:
  "keeps s (remove_udev_device d s) \<and> num_joysticks (remove_udev_device d s) = num_joysticks s
   \<and> udev_ctx (remove_udev_device d s) = udev_ctx s
   \<and> udev_monitor (remove_udev_device d s) = udev_monitor s
   \<and> oob_write (remove_udev_device d s) = oob_write s"
  using fold_frame [of "remove_matching dn" s "[0..<num_joysticks s]" for dn, OF remove_matching_frame]
  by (simp add: remove_udev_device_def keeps_refl split: option.splits)

lemma remove_udev_device_ok:
  "registry_ok s \<Longrightarrow> registry_ok (remove_udev_device d s)"
  using remove_udev_device_frame [of s d] by (blast intro: keeps_ok)

lemma release_udev_frame:
  "joysticks (release_udev s) = joysticks s \<and> num_joysticks (release_udev s) = num_joysticks s
   \<and> oob_write (release_udev s) = oob_write s
   \<and> (udev_ctx s \<noteq> None \<longrightarrow> udev_ctx (release_udev s) = None \<and> udev_monitor (release_udev s) = None)
   \<and> (udev_ctx s = None \<longrightarrow> release_udev s = s)"
  by (simp add: release_udev_def udev_unref_def Let_def split: option.splits)

lemma input_reset_table:
  "length (joysticks (input_reset s)) = length (joysticks s) \<and> num_joysticks (input_reset s) = 0
   \<and> oob_write (input_reset s) = oob_write s
   \<and> (udev_ctx s \<noteq> None \<longrightarrow> udev_ctx (input_reset s) = None \<and> udev_monitor (input_reset s) = None)
   \<and> (udev_ctx s = None \<longrightarrow> udev_ctx (input_reset s) = None \<and> udev_monitor (input_reset s) = udev_monitor s)"
proof -
  define s1 where "s1 = fold close_slot [0..<num_joysticks s] s"
  have f: "keeps s s1 \<and> num_joysticks s1 = num_joysticks s
      \<and> udev_ctx s1 = udev_ctx s \<and> udev_monitor s1 = udev_monitor s \<and> oob_write s1 = oob_write s"
    unfolding s1_def by (rule fold_frame) (rule close_slot_frame)
  have r: "input_reset s = release_udev (s1\<lparr>num_joysticks := 0\<rparr>)"
    by (simp add: input_reset_def s1_def Let_def)
  show ?thesis
    unfolding r using f release_udev_frame [of "s1\<lparr>num_joysticks := 0\<rparr>"]
    by (auto simp: keeps_def)
qed

lemma input_reset_ok:
  "registry_ok s \<Longrightarrow> registry_ok (input_reset s)"
  using input_reset_table [of s]
  by (cases "udev_ctx s = None") (auto simp: registry_ok_def active_def MAX_JOYSTICKS_def)

lemma same_players_refl: "same_players s s"
  by (simp add: same_players_def)

lemma same_players_trans: "same_players s t \<Longrightarrow> same_players t u \<Longrightarrow> same_players s u"
  by (simp add: same_players_def)

lemma same_players_held: "same_players s s' \<Longrightarrow> held s' p = held s p"
  unfolding held_iff same_players_def by metis

lemma same_players_least: "same_players s s' \<Longrightarrow> least_unused s' p = least_unused s p"
  by (simp add: least_unused_def same_players_held)

lemma same_players_fields:
  assumes "num_joysticks s' = num_joysticks s"
    and "\<And>k. fd (joysticks s' ! k) = fd (joysticks s ! k)"
    and "\<And>k. player (joysticks s' ! k) = player (joysticks s ! k)"
  shows "same_players s s'"
  using assms by (simp add: same_players_def active_def)

lemma same_players_ok:
  assumes "registry_ok s" "same_players s s'" "num_joysticks s' \<le> MAX_JOYSTICKS s'"
    "udev_ctx s' = udev_ctx s" "udev_monitor s' = udev_monitor s"
  shows "registry_ok s'"
  using assms unfolding registry_ok_def same_players_def by metis

lemma get_free_joystick_cases:
  obtains (reuse) i where "get_free_joystick s = (Some i, s)" "i < num_joysticks s"
      "fd (joysticks s ! i) = - 1" "\<forall>k<i. fd (joysticks s ! k) \<noteq> - 1"
  | (grow) "get_free_joystick s =
        (Some (num_joysticks s),
         s\<lparr>joysticks := (joysticks s)[num_joysticks s := (joysticks s ! num_joysticks s)\<lparr>fd := - 1\<rparr>],
           num_joysticks := Suc (num_joysticks s)\<rparr>)"
      "\<forall>k<num_joysticks s. fd (joysticks s ! k) \<noteq> - 1" "num_joysticks s < MAX_JOYSTICKS s"
  | (full) "get_free_joystick s = (None, s)"
      "\<forall>k<num_joysticks s. fd (joysticks s ! k) \<noteq> - 1" "MAX_JOYSTICKS s \<le> num_joysticks s"
proof (cases "find (\<lambda>i. fd (joysticks s ! i) = - 1) [0..<num_joysticks s]")
  case (Some i)
  then have "i < num_joysticks s" "fd (joysticks s ! i) = - 1" "\<forall>k<i. fd (joysticks s ! k) \<noteq> - 1"
    by (simp_all add: find_upt_Some)
  then show ?thesis
    using get_free_joystick_reuse [of i s] reuse by blast
next
  case None
  then have all: "\<forall>k<num_joysticks s. fd (joysticks s ! k) \<noteq> - 1"
    by (simp add: find_upt_None)
  show ?thesis
  proof (cases "num_joysticks s < MAX_JOYSTICKS s")
    case True
    with all get_free_joystick_grow [of s] grow show ?thesis by blast
  next
    case False
    with all get_free_joystick_full [of s] full show ?thesis by simp
  qed
qed

text \<open>
  \<^verbatim>\<open>get_free_joystick\<close> activates no slot; the slot it returns is free, below the count
  and the lowest such.
\<close>

lemma get_free_joystick_effect:
  assumes ok: "num_joysticks s \<le> MAX_JOYSTICKS s" and g: "get_free_joystick s = (slot, s')"
  shows "same_players s s' \<and> grows s s' \<and> num_joysticks s' \<le> MAX_JOYSTICKS s'
       \<and> num_joysticks s' \<le> Suc (num_joysticks s)
       \<and> udev_ctx s' = udev_ctx s \<and> udev_monitor s' = udev_monitor s
       \<and> oob_write s' = oob_write s \<and> open_fds s' = open_fds s
       \<and> (slot = None \<longrightarrow> s' = s)
       \<and> (\<forall>i. slot = Some i \<longrightarrow> i < num_joysticks s' \<and> fd (joysticks s' ! i) = - 1
              \<and> (\<forall>k<i. fd (joysticks s' ! k) \<noteq> - 1))"
proof (cases s rule: get_free_joystick_cases)
  case (reuse i)
  with g ok show ?thesis
    by (auto simp: same_players_refl grows_refl)
next
  case grow
  let ?n = "num_joysticks s"
  from grow g have s': "s' = s\<lparr>joysticks := (joysticks s)[?n := (joysticks s ! ?n)\<lparr>fd := - 1\<rparr>],
           num_joysticks := Suc ?n\<rparr>" and slot: "slot = Some ?n"
    by simp_all
  have len: "?n < length (joysticks s)"
    using grow by (simp add: MAX_JOYSTICKS_def)
  have nth: "joysticks s' ! k = (if k = ?n then (joysticks s ! ?n)\<lparr>fd := - 1\<rparr> else joysticks s ! k)" for k
    using len by (simp add: s')
  have "same_players s s'"
    unfolding same_players_def active_def
    by (auto simp: nth) (simp_all add: s')
  moreover have "\<forall>k<?n. fd (joysticks s' ! k) \<noteq> - 1"
    using grow(2) by (simp add: nth)
  ultimately show ?thesis
    using len by (simp add: slot nth) (simp add: s' grows_def MAX_JOYSTICKS_def)
next
  case full
  with g ok show ?thesis
    by (auto simp: same_players_refl grows_refl)
qed

lemma populate_fields [simp]:
  "fd (populate K d dn r ax bt nm p j) = d"
  "player (populate K d dn r ax bt nm p j) = p"
  "key_state (populate K d dn r ax bt nm p j) = 0"
  "last_key_idx (populate K d dn r ax bt nm p j) = KEYPAD_NONE K"
  "last_key_val (populate K d dn r ax bt nm p j) = False"
  "key_history (populate K d dn r ax bt nm p j) = key_history j"
  by (simp_all add: populate_def)

lemma populate_effect:
  assumes ok: "registry_ok s"
    and i: "i < num_joysticks s" "fd (joysticks s ! i) = - 1" "\<forall>k<i. fd (joysticks s ! k) \<noteq> - 1"
    and s': "s' = set_slot i (populate K d dn r ax bt nm (get_available_player s) (joysticks s ! i)) s"
  shows "registry_ok s' \<and> opened s s' i \<and> fd (joysticks s' ! i) = d
       \<and> num_joysticks s' = num_joysticks s \<and> length (joysticks s') = length (joysticks s)
       \<and> udev_ctx s' = udev_ctx s \<and> udev_monitor s' = udev_monitor s \<and> oob_write s' = oob_write s"
proof -
  define p where "p = get_available_player s"
  have zero: "active s 0 \<longrightarrow> player (joysticks s ! 0) = 1"
    and others: "\<And>k. 0 < k \<Longrightarrow> active s k \<Longrightarrow> player (joysticks s ! k) \<noteq> 1"
    and distinct: "\<And>a b. active s a \<Longrightarrow> active s b \<Longrightarrow> a \<noteq> b \<Longrightarrow>
        player (joysticks s ! a) \<noteq> player (joysticks s ! b)"
    and bound: "num_joysticks s \<le> length (joysticks s)"
    and udev: "udev_monitor s \<noteq> None \<longrightarrow> udev_ctx s \<noteq> None"
    using ok by (simp_all add: registry_ok_def MAX_JOYSTICKS_def)
  have lu: "least_unused s p"
    unfolding p_def using zero by (rule get_available_player_least)
  then have pos: "0 < p" and unheld: "\<And>k. active s k \<Longrightarrow> player (joysticks s ! k) \<noteq> p"
    and below: "\<And>q. 1 \<le> q \<Longrightarrow> q < p \<Longrightarrow> \<exists>k. active s k \<and> player (joysticks s ! k) = q"
    by (auto simp: least_unused_def held_iff)
  have len: "i < length (joysticks s)"
    using i(1) bound by simp
  have fields: "num_joysticks s' = num_joysticks s" "length (joysticks s') = length (joysticks s)"
    "udev_ctx s' = udev_ctx s" "udev_monitor s' = udev_monitor s" "oob_write s' = oob_write s"
    by (simp_all add: s' set_slot_def)
  have at_i: "fd (joysticks s' ! i) = d" "player (joysticks s' ! i) = p"
    using len by (simp_all add: s' set_slot_def p_def)
  have off_i: "joysticks s' ! k = joysticks s ! k" if "k \<noteq> i" for k
    using that by (simp add: s' set_slot_def)
  have free: "\<not> active s i"
    using i(2) by (simp add: active_def)
  have act: "active s' k = active s k" if "k \<noteq> i" for k
    using that by (simp add: active_def fields off_i)
  have act_i: "active s' i \<Longrightarrow> d \<noteq> - 1"
    by (simp add: active_def at_i)
  have o: "opened s s' i"
    unfolding opened_def using free i(1) lu by (simp add: fields at_i act off_i)
  have p_one: "p = 1" if "i = 0"
  proof (rule ccontr)
    assume "p \<noteq> 1"
    with pos have "1 \<le> (1::int)" "1 < p" by simp_all
    from below [OF this] obtain k where k: "active s k" "player (joysticks s ! k) = 1" by blast
    with free that have "0 < k" by (cases k) auto
    with others k show False by blast
  qed
  have p_not_one: "p \<noteq> 1" if "0 < i"
  proof -
    from that i have "active s 0" by (simp add: active_def)
    with zero unheld [of 0] show ?thesis by auto
  qed
  have "registry_ok s'"
    unfolding registry_ok_def
  proof (intro conjI allI impI)
    show "num_joysticks s' \<le> MAX_JOYSTICKS s'"
      using bound by (simp add: fields MAX_JOYSTICKS_def)
    show "player (joysticks s' ! 0) = 1" if "active s' 0"
    proof (cases "i = 0")
      case True
      then show ?thesis using at_i p_one by simp
    next
      case False
      with that zero show ?thesis by (simp add: act off_i)
    qed
    show "player (joysticks s' ! k) \<noteq> 1" if "0 < k \<and> active s' k" for k
    proof (cases "k = i")
      case True
      with that show ?thesis using at_i p_not_one by simp
    next
      case False
      with that others [of k] show ?thesis by (simp add: act off_i)
    qed
    show "player (joysticks s' ! a) \<noteq> player (joysticks s' ! b)"
      if ab: "active s' a \<and> active s' b \<and> a \<noteq> b" for a b
    proof -
      consider "a = i" "b \<noteq> i" | "a \<noteq> i" "b = i" | "a \<noteq> i" "b \<noteq> i"
        using ab by blast
      then show ?thesis
      proof cases
        case 1
        with ab unheld [of b] show ?thesis by (simp add: act off_i at_i)
      next
        case 2
        with ab unheld [of a] show ?thesis by (simp add: act off_i at_i)
      next
        case 3
        with ab distinct [of a b] show ?thesis by (simp add: act off_i)
      qed
    qed
    show "udev_ctx s' \<noteq> None" if "udev_monitor s' \<noteq> None"
      using that udev by (simp add: fields)
  qed
  with o at_i fields show ?thesis by simp
qed

lemma memset_key_history_effect:
  "num_joysticks (memset_key_history n s) = num_joysticks s
   \<and> length (joysticks (memset_key_history n s)) = length (joysticks s)
   \<and> udev_ctx (memset_key_history n s) = udev_ctx s
   \<and> udev_monitor (memset_key_history n s) = udev_monitor s
   \<and> (\<forall>k. fd (joysticks (memset_key_history n s) ! k) = fd (joysticks s ! k)
          \<and> player (joysticks (memset_key_history n s) ! k) = player (joysticks s ! k))
   \<and> (n < MAX_JOYSTICKS s \<longrightarrow> oob_write (memset_key_history n s) = oob_write s)
   \<and> (oob_write s \<longrightarrow> oob_write (memset_key_history n s))"
proof (cases "n < MAX_JOYSTICKS s")
  case True
  then have len: "n < length (joysticks s)"
    by (simp add: MAX_JOYSTICKS_def)
  have "fd (joysticks (memset_key_history n s) ! k) = fd (joysticks s ! k)
      \<and> player (joysticks (memset_key_history n s) ! k) = player (joysticks s ! k)" for k
    using True len by (cases "k = n") (simp_all add: memset_key_history_def set_slot_def)
  with True show ?thesis
    by (simp add: memset_key_history_def set_slot_def)
next
  case False
  then show ?thesis
    by (simp add: memset_key_history_def)
qed

lemma ioctl_or_fields [simp]:
  "joysticks (snd (ioctl_or res d s)) = joysticks s"
  "num_joysticks (snd (ioctl_or res d s)) = num_joysticks s"
  "udev_ctx (snd (ioctl_or res d s)) = udev_ctx s"
  "udev_monitor (snd (ioctl_or res d s)) = udev_monitor s"
  "oob_write (snd (ioctl_or res d s)) = oob_write s"
  "open_fds (snd (ioctl_or res d s)) = open_fds s"
  by (simp_all add: ioctl_or_def split: sysres.splits)

lemma table_cong:
  assumes "joysticks t = joysticks s" "num_joysticks t = num_joysticks s"
  shows "active t = active s" "held t = held s" "least_unused t = least_unused s"
    "opened t s' i = opened s s' i" "grows t s' = grows s s'" "MAX_JOYSTICKS t = MAX_JOYSTICKS s"
proof -
  show a: "active t = active s"
    using assms by (auto simp: active_def fun_eq_iff)
  show h: "held t = held s"
    using assms by (auto simp: held_def fun_eq_iff)
  show l: "least_unused t = least_unused s"
    by (simp add: least_unused_def fun_eq_iff h)
  show "opened t s' i = opened s s' i"
    using assms by (simp add: opened_def a l)
  show "grows t s' = grows s s'"
    using assms by (simp add: grows_def)
  show "MAX_JOYSTICKS t = MAX_JOYSTICKS s"
    using assms by (simp add: MAX_JOYSTICKS_def)
qed

lemma opened_same_players:
  assumes st: "same_players s t" and o: "opened t u i"
    and f: "\<And>k. fd (joysticks v ! k) = fd (joysticks u ! k)"
      "\<And>k. player (joysticks v ! k) = player (joysticks u ! k)"
    and n: "num_joysticks v = num_joysticks u"
  shows "opened s v i"
proof -
  have av: "active v = active u"
    using f n by (simp add: active_def fun_eq_iff)
  from st have l: "least_unused t = least_unused s"
    by (simp add: same_players_least fun_eq_iff)
  from st o show ?thesis
    unfolding opened_def same_players_def av l by (simp add: f n)
qed

lemma open_joystick_slot_effect:
  assumes ok: "registry_ok s" and op: "open_joystick_slot K env d dn r s = (b, s')"
  shows "registry_ok s' \<and> grows s s' \<and> udev_ctx s' = udev_ctx s \<and> udev_monitor s' = udev_monitor s
       \<and> (oob_write s \<longrightarrow> oob_write s')
       \<and> (if b then \<exists>i. opened s s' i \<and> fd (joysticks s' ! i) = d
          else joysticks s' = joysticks s \<and> num_joysticks s' = num_joysticks s
               \<and> oob_write s' = oob_write s)"
proof -
  define s1 where "s1 = snd (ioctl_or (JSIOCGAXES env) 0 s)"
  define s2 where "s2 = snd (ioctl_or (JSIOCGBUTTONS env) 0 s1)"
  define s3 where "s3 = snd (ioctl_or (JSIOCGNAME env) [] s2)"
  define ax where "ax = fst (ioctl_or (JSIOCGAXES env) 0 s)"
  define bt where "bt = fst (ioctl_or (JSIOCGBUTTONS env) 0 s1)"
  define nm where "nm = fst (ioctl_or (JSIOCGNAME env) [] s2)"
  define slot where "slot = fst (get_free_joystick s3)"
  define s4 where "s4 = snd (get_free_joystick s3)"
  have t3: "joysticks s3 = joysticks s" "num_joysticks s3 = num_joysticks s"
    "udev_ctx s3 = udev_ctx s" "udev_monitor s3 = udev_monitor s" "oob_write s3 = oob_write s"
    by (simp_all add: s3_def s2_def s1_def)
  have ok3: "registry_ok s3"
    using ok t3(1-4) by (rule registry_ok_same_table)
  have unf: "open_joystick_slot K env d dn r s =
      (case slot of
         None \<Rightarrow> (False, (sys_close d s4)\<lparr>errno := ENOMEM\<rparr>)
       | Some i \<Rightarrow>
           (True, memset_key_history
              (num_joysticks (set_slot i (populate K d dn r ax bt nm (get_available_player s4)
                  (joysticks s4 ! i)) s4))
              (set_slot i (populate K d dn r ax bt nm (get_available_player s4)
                  (joysticks s4 ! i)) s4)))"
    by (simp add: open_joystick_slot_def case_prod_beta Let_def s1_def s2_def s3_def ax_def bt_def
        nm_def slot_def s4_def split: option.splits)
  have g: "get_free_joystick s3 = (slot, s4)"
    by (simp add: slot_def s4_def)
  have b3: "num_joysticks s3 \<le> MAX_JOYSTICKS s3"
    using ok3 by (simp add: registry_ok_def)
  note e = get_free_joystick_effect [OF b3 g]
  have ok4: "registry_ok s4"
    using ok3 e by (intro same_players_ok [of s3 s4]) simp_all
  have sp: "same_players s s4"
    using e t3 by (simp add: same_players_def table_cong(1) [of s3 s])
  have gr: "grows s s4"
    using e t3 by (simp add: grows_def)
  show ?thesis
  proof (cases slot)
    case None
    with e have "s4 = s3" by simp
    with op unf None t3 ok gr show ?thesis
      by (auto simp: sys_close_def grows_def intro: registry_ok_same_table)
  next
    case (Some i)
    define s5 where "s5 = set_slot i (populate K d dn r ax bt nm (get_available_player s4)
                  (joysticks s4 ! i)) s4"
    from Some e have i: "i < num_joysticks s4" "fd (joysticks s4 ! i) = - 1"
      "\<forall>k<i. fd (joysticks s4 ! k) \<noteq> - 1"
      by simp_all
    note p = populate_effect [OF ok4 i s5_def]
    note m = memset_key_history_effect [of "num_joysticks s5" s5]
    from op unf Some have b: "b" and s': "s' = memset_key_history (num_joysticks s5) s5"
      by (simp_all add: s5_def)
    have sp56: "same_players s5 s'"
      unfolding s' using m by (intro same_players_fields) simp_all
    have ok5: "registry_ok s5"
      using p by simp
    have ok': "registry_ok s'"
    proof (rule same_players_ok [OF ok5 sp56])
      show "num_joysticks s' \<le> MAX_JOYSTICKS s'"
        using ok5 m by (simp add: s' registry_ok_def MAX_JOYSTICKS_def)
      show "udev_ctx s' = udev_ctx s5" "udev_monitor s' = udev_monitor s5"
        using m by (simp_all add: s')
    qed
    have o: "opened s s' i"
      using sp p m by (intro opened_same_players [of s s4 s5 i s']) (simp_all add: s')
    have fdi: "fd (joysticks s' ! i) = d"
      using p m by (simp add: s')
    have gr': "grows s s'"
      using gr p m by (simp add: grows_def s')
    have u: "udev_ctx s' = udev_ctx s" "udev_monitor s' = udev_monitor s" "oob_write s \<longrightarrow> oob_write s'"
      using e t3 p m by (simp_all add: s')
    from ok' gr' u b o fdi show ?thesis by auto
  qed
qed

lemma evolves_refl: "registry_ok s \<Longrightarrow> evolves s s"
  by (simp add: evolves_def grows_refl)

lemma evolves_trans: "evolves s t \<Longrightarrow> evolves t u \<Longrightarrow> evolves s u"
  unfolding evolves_def using grows_trans by auto

lemma evolves_ok: "evolves s s' \<Longrightarrow> registry_ok s'"
  by (simp add: evolves_def)

lemma evolves_fold:
  assumes step: "\<And>x s. registry_ok s \<Longrightarrow> evolves s (f x s)"
  shows "registry_ok s \<Longrightarrow> evolves s (fold f xs s)"
proof (induction xs arbitrary: s)
  case Nil
  then show ?case by (simp add: evolves_refl)
next
  case (Cons x xs)
  from step [OF Cons.prems] have a: "evolves s (f x s)" .
  from Cons.IH [OF evolves_ok [OF a]] a show ?case
    by (simp add: evolves_trans)
qed

lemma open_joystick_slot_effect_on:
  assumes ok: "registry_ok s"
    and t: "joysticks t = joysticks s" "num_joysticks t = num_joysticks s"
      "udev_ctx t = udev_ctx s" "udev_monitor t = udev_monitor s" "oob_write t = oob_write s"
    and op: "open_joystick_slot K env d dn r t = (b, s')"
  shows "evolves s s'
       \<and> (if b then \<exists>i. opened s s' i \<and> fd (joysticks s' ! i) = d
          else joysticks s' = joysticks s \<and> num_joysticks s' = num_joysticks s
               \<and> oob_write s' = oob_write s)"
proof -
  have "registry_ok t"
    using ok t(1-4) by (rule registry_ok_same_table)
  from open_joystick_slot_effect [OF this op] show ?thesis
    unfolding evolves_def by (simp add: t table_cong(4,5) [OF t(1,2)] cong: if_cong)
qed

lemma open_joystick_effect:
  assumes ok: "registry_ok s" and op: "open_joystick K env dn r chk s = (b, s')"
  shows "evolves s s'
       \<and> (if b then \<exists>i d. sys_open env = Ok d \<and> opened s s' i \<and> fd (joysticks s' ! i) = d
          else joysticks s' = joysticks s \<and> num_joysticks s' = num_joysticks s
               \<and> oob_write s' = oob_write s)"
proof (cases "sys_open env")
  case (Err e)
  with op have "b = False" "s' = s\<lparr>errno := e\<rparr>"
    by (simp_all add: open_joystick_def)
  with ok show ?thesis
    by (auto simp: evolves_def grows_def intro: registry_ok_same_table)
next
  case (Ok d)
  define s0 where "s0 = s\<lparr>open_fds := insert d (open_fds s)\<rparr>"
  have same: "evolves s u \<and> joysticks u = joysticks s \<and> num_joysticks u = num_joysticks s
      \<and> oob_write u = oob_write s"
    if "joysticks u = joysticks s" "num_joysticks u = num_joysticks s" "oob_write u = oob_write s"
      "udev_ctx u = udev_ctx s" "udev_monitor u = udev_monitor s" for u
    using that ok by (auto simp: evolves_def grows_def intro: registry_ok_same_table)
  have unf: "open_joystick K env dn r chk s =
      (if chk then
         (case JSIOCGVERSION env of
            Err e \<Rightarrow> (False, (sys_close d (s0\<lparr>errno := e\<rparr>))\<lparr>errno := e\<rparr>)
          | Ok version \<Rightarrow>
              if version = 0 then (False, s0\<lparr>errno := EINVAL\<rparr>)
              else open_joystick_slot K env d dn r s0)
       else
         (case JSIOCGVERSION env of
            Err e \<Rightarrow> open_joystick_slot K env d dn r (s0\<lparr>errno := e\<rparr>)
          | Ok version \<Rightarrow> open_joystick_slot K env d dn r s0))"
    using Ok unfolding s0_def by (simp add: open_joystick_def Let_def)
  have slot: ?thesis if "open_joystick_slot K env d dn r t = (b, s')"
    and "joysticks t = joysticks s" "num_joysticks t = num_joysticks s"
      "udev_ctx t = udev_ctx s" "udev_monitor t = udev_monitor s" "oob_write t = oob_write s" for t
    using open_joystick_slot_effect_on [OF ok that(2-6) that(1)] Ok by auto
  have reject: ?thesis if "b = False" "joysticks s' = joysticks s" "num_joysticks s' = num_joysticks s"
      "oob_write s' = oob_write s" "udev_ctx s' = udev_ctx s" "udev_monitor s' = udev_monitor s"
    using same [OF that(2-6)] that(1) by simp
  show ?thesis
  proof (cases "JSIOCGVERSION env")
    case (Err e)
    show ?thesis
    proof (cases chk)
      case True
      with Err op unf have "b = False" "s' = (sys_close d (s0\<lparr>errno := e\<rparr>))\<lparr>errno := e\<rparr>"
        by simp_all
      then show ?thesis
        by (intro reject) (simp_all add: s0_def sys_close_def)
    next
      case False
      with Err op unf have "open_joystick_slot K env d dn r (s0\<lparr>errno := e\<rparr>) = (b, s')"
        by simp
      then show ?thesis
        by (rule slot) (simp_all add: s0_def)
    qed
  next
    case v: (Ok version)
    show ?thesis
    proof (cases "chk \<and> version = 0")
      case True
      with v op unf have "b = False" "s' = s0\<lparr>errno := EINVAL\<rparr>"
        by simp_all
      then show ?thesis
        by (intro reject) (simp_all add: s0_def)
    next
      case False
      with v op unf have "open_joystick_slot K env d dn r s0 = (b, s')"
        by (auto split: if_splits)
      then show ?thesis
        by (rule slot) (simp_all add: s0_def)
    qed
  qed
qed

lemma open_joystick_evolves:
  "registry_ok s \<Longrightarrow> evolves s (snd (open_joystick K env dn r chk s))"
  using open_joystick_effect [of s K env dn r chk "fst (open_joystick K env dn r chk s)"
      "snd (open_joystick K env dn r chk s)"]
  by simp

lemma add_udev_device_evolves:
  assumes ok: "registry_ok s"
  shows "evolves s (add_udev_device K d s)"
proof -
  have e: "evolves s (s\<lparr>errno := e\<rparr>)" for e
    using ok by (auto simp: evolves_def grows_def intro: registry_ok_same_table)
  show ?thesis
    using ok e open_joystick_evolves [OF ok]
    by (simp add: add_udev_device_def evolves_refl split: option.splits sysres.splits)
qed

lemma remove_udev_device_evolves:
  assumes ok: "registry_ok s"
  shows "evolves s (remove_udev_device d s)"
  using remove_udev_device_frame [of s d] remove_udev_device_ok [OF ok, of d]
  by (simp add: evolves_def grows_def keeps_def)

lemma udev_notify_evolves:
  assumes ok: "registry_ok s"
  shows "evolves s (udev_notify K d s)"
proof -
  have c: "evolves s (add_udev_device K x (remove_udev_device x s))" for x
    using remove_udev_device_evolves [OF ok, of x]
      add_udev_device_evolves [OF remove_udev_device_ok [OF ok, of x], of K x]
    by (rule evolves_trans)
  have a: "evolves s (add_udev_device K x s)" for x
    using ok by (rule add_udev_device_evolves)
  have r: "evolves s (remove_udev_device x s)" for x
    using ok by (rule remove_udev_device_evolves)
  show ?thesis
    using ok by (simp add: udev_notify_def evolves_refl a r c split: option.splits)
qed

lemma udev_monitor_poll_evolves:
  "registry_ok s \<Longrightarrow> evolves s (udev_monitor_poll K pend s)"
  using evolves_fold [of "udev_notify K" s pend, OF udev_notify_evolves]
  by (simp add: udev_monitor_poll_def evolves_refl)

lemma decode_fields [simp]:
  "fd (decode K ev j) = fd j" "player (decode K ev j) = player j"
  by (simp_all add: decode_def Let_def)

lemma decode_event_fields [simp]:
  "fd (decode_event K ev j) = fd j" "player (decode_event K ev j) = player j"
  by (simp_all add: decode_event_def)

lemma read_joystick_evolves:
  assumes ok: "registry_ok s"
  shows "evolves s (snd (read_joystick K env s))"
proof -
  define s1 where "s1 = udev_monitor_poll K (pending env) s"
  have e1: "evolves s s1"
    unfolding s1_def using ok by (rule udev_monitor_poll_evolves)
  then have ok1: "registry_ok s1" by (rule evolves_ok)
  have "evolves s1 (set_slot i (decode_event K ev (joysticks s1 ! i)) s1)" for i ev
  proof -
    have "keeps s1 (set_slot i (decode_event K ev (joysticks s1 ! i)) s1)"
      by (rule keeps_update_slot [where i = i and j' = "decode_event K ev (joysticks s1 ! i)"])
         (simp_all add: set_slot_def)
    from keeps_ok [OF ok1 this] show ?thesis
      by (simp add: evolves_def grows_def set_slot_def)
  qed
  then have "evolves s1 (snd (read_joystick K env s))"
    using ok1 by (simp add: read_joystick_def s1_def [symmetric] evolves_refl split: option.splits)
  with e1 show ?thesis by (rule evolves_trans)
qed

subsection \<open>Reading an axis event\<close>






lemma decode_key_state_only:
  "key_state j = key_state j' \<Longrightarrow>
   last_key_idx (decode K ev j) = last_key_idx (decode K ev j')
   \<and> last_key_val (decode K ev j) = last_key_val (decode K ev j')
   \<and> key_state (decode K ev j) = key_state (decode K ev j')"
  by (simp add: decode_def Let_def)



subsection \<open>Runs\<close>

lemma release_udev_ok:
  assumes ok: "registry_ok s"
  shows "registry_ok (release_udev s)"
proof (cases "udev_ctx s = None")
  case True
  with release_udev_frame [of s] ok show ?thesis by simp
next
  case False
  with release_udev_frame [of s] ok show ?thesis
    by (simp add: registry_ok_def active_def MAX_JOYSTICKS_def)
qed

lemma init_udev_hotplug_effect:
  assumes ok: "registry_ok s" and i: "init_udev_hotplug K env s = Some s'"
  shows "registry_ok s' \<and> grows s s' \<and> (oob_write s \<longrightarrow> oob_write s')"
proof -
  define s1 where "s1 = release_udev s"
  from i obtain c e where c: "udev_new env = Some c" and e: "udev_enumerate_new env = Some e"
    by (auto simp: init_udev_hotplug_def Let_def split: option.splits)
  define s2 where "s2 = s1\<lparr>udev_ctx := Some c, udev_refs := insert c (udev_refs s1)\<rparr>"
  define s3 where "s3 = (case udev_monitor_new_from_netlink env of
                      Some m \<Rightarrow> s2\<lparr>udev_monitor := Some m, udev_refs := insert m (udev_refs s2)\<rparr>
                    | None \<Rightarrow> s2\<lparr>udev_monitor := None\<rparr>)"
  have s': "s' = fold (add_udev_device K) (enumerated env) s3"
    using i c e unfolding s1_def s2_def s3_def by (simp add: init_udev_hotplug_def Let_def)
  have t: "joysticks s3 = joysticks s" "num_joysticks s3 = num_joysticks s"
    "oob_write s3 = oob_write s" "udev_ctx s3 = Some c"
    using release_udev_frame [of s] unfolding s3_def s2_def s1_def
    by (cases "udev_monitor_new_from_netlink env"; simp)+
  have ok3: "registry_ok s3"
    using ok t by (simp add: registry_ok_def active_def MAX_JOYSTICKS_def)
  have "evolves s3 s'"
    unfolding s' using ok3 by (intro evolves_fold add_udev_device_evolves)
  then show ?thesis
    using t by (simp add: evolves_def grows_def)
qed

lemma init_joystick_effect:
  assumes ok: "registry_ok s" and i: "init_joystick K dn st env s = Some s'"
  shows "evolves s s'"
proof (cases dn)
  case None
  with i ok show ?thesis by (simp add: init_joystick_def evolves_refl)
next
  case (Some d)
  with i obtain r where "st = Ok r" and "s' = snd (open_joystick K env d r False s)"
    by (auto simp: init_joystick_def split: sysres.splits prod.splits bool.splits)
  with open_joystick_evolves [OF ok] show ?thesis by simp
qed

lemma get_free_joystick_evolves:
  assumes ok: "registry_ok s"
  shows "evolves s (snd (get_free_joystick s))"
proof -
  obtain slot s' where g: "get_free_joystick s = (slot, s')"
    by (cases "get_free_joystick s")
  have b: "num_joysticks s \<le> MAX_JOYSTICKS s"
    using ok by (simp add: registry_ok_def)
  from get_free_joystick_effect [OF b g]
  have sp: "same_players s s'" and gr: "grows s s'" and n: "num_joysticks s' \<le> MAX_JOYSTICKS s'"
    and u: "udev_ctx s' = udev_ctx s" "udev_monitor s' = udev_monitor s"
    and o: "oob_write s' = oob_write s"
    by blast+
  have "registry_ok s'"
    using ok sp n u by (rule same_players_ok)
  with gr u o show ?thesis
    by (simp add: evolves_def g)
qed

lemma step_effect:
  assumes ok: "registry_ok s" and st: "step K x s = Some s'"
  shows "registry_ok s' \<and> length (joysticks s') = length (joysticks s)
       \<and> (oob_write s \<longrightarrow> oob_write s')
       \<and> (x \<noteq> InputReset \<longrightarrow> num_joysticks s \<le> num_joysticks s')"
proof (cases x)
  case InputReset
  with st have "s' = input_reset s" by simp
  with input_reset_ok [OF ok] input_reset_table [of s] InputReset show ?thesis by simp
next
  case GetFreeJoystick
  with st get_free_joystick_evolves [OF ok] show ?thesis
    by (auto simp: evolves_def grows_def)
next
  case (OpenJoystick env d r chk)
  with st open_joystick_evolves [OF ok, of K env d r chk] show ?thesis
    by (auto simp: evolves_def grows_def)
next
  case (InitJoystick d stt env)
  with st init_joystick_effect [OF ok, of K d stt env s'] show ?thesis
    by (auto simp: evolves_def grows_def)
next
  case (AddUdevDevice d)
  with st add_udev_device_evolves [OF ok, of K d] show ?thesis
    by (auto simp: evolves_def grows_def)
next
  case (RemoveUdevDevice d)
  with st remove_udev_device_evolves [OF ok, of d] show ?thesis
    by (auto simp: evolves_def grows_def)
next
  case (InitUdevHotplug env)
  with st init_udev_hotplug_effect [OF ok, of K env s'] show ?thesis
    by (auto simp: grows_def)
next
  case (ReadJoystick env)
  with st read_joystick_evolves [OF ok, of K env] show ?thesis
    by (auto simp: evolves_def grows_def)
qed

lemma run_effect:
  "registry_ok s \<Longrightarrow> run K xs s = Some s' \<Longrightarrow>
   registry_ok s' \<and> length (joysticks s') = length (joysticks s) \<and> (oob_write s \<longrightarrow> oob_write s')"
proof (induction xs arbitrary: s)
  case Nil
  then show ?case by simp
next
  case (Cons x xs)
  from Cons.prems(2) obtain t where t: "step K x s = Some t" and r: "run K xs t = Some s'"
    by (auto split: option.splits)
  from step_effect [OF Cons.prems(1) t] Cons.IH [OF _ r] show ?case
    by simp
qed

lemma registry_ok_init: "registry_ok (init_state N H)"
  by (simp add: registry_ok_def init_state_def active_def)

lemma MAX_JOYSTICKS_init: "MAX_JOYSTICKS (init_state N H) = N"
  by (simp add: MAX_JOYSTICKS_def init_state_def)

lemma run_init:
  assumes "run K xs (init_state N H) = Some s"
  shows "registry_ok s \<and> MAX_JOYSTICKS s = N"
  using run_effect [OF registry_ok_init assms] MAX_JOYSTICKS_init [of N H]
  by (simp add: MAX_JOYSTICKS_def)

lemma count_fold:
  "fold (\<lambda>i cnt. if P i then cnt + 1 else cnt) [0..<n] (0::int) = int (card {i. i < n \<and> P i})"
proof (induction n)
  case 0
  show ?case by simp
next
  case (Suc n)
  have fin: "finite {i. i < n \<and> P i}" by simp
  have "{i. i < Suc n \<and> P i} = (if P n then insert n {i. i < n \<and> P i} else {i. i < n \<and> P i})"
    by (auto simp: less_Suc_eq)
  then have "card {i. i < Suc n \<and> P i} = (if P n then Suc (card {i. i < n \<and> P i}) else card {i. i < n \<and> P i})"
    using fin by simp
  with Suc show ?case by simp
qed

lemma count_joysticks_card:
  "count_joysticks s = int (card {i. i < num_joysticks s \<and> fd (joysticks s ! i) \<noteq> - 1})"
  unfolding count_joysticks_def by (rule count_fold)

lemma count_joysticks_le: "count_joysticks s \<le> int (num_joysticks s)"
proof -
  have "card {i. i < num_joysticks s \<and> fd (joysticks s ! i) \<noteq> - 1} \<le> card {i. i < num_joysticks s}"
    by (intro card_mono) auto
  then show ?thesis
    by (simp add: count_joysticks_card)
qed

lemma get_free_joystick_num:
  "num_joysticks (snd (get_free_joystick s)) = num_joysticks s
   \<or> num_joysticks s < MAX_JOYSTICKS s \<and> num_joysticks (snd (get_free_joystick s)) = Suc (num_joysticks s)"
  by (cases s rule: get_free_joystick_cases) simp_all

lemma get_free_joystick_num_cong:
  "joysticks t = joysticks s \<Longrightarrow> num_joysticks t = num_joysticks s \<Longrightarrow>
   num_joysticks (snd (get_free_joystick t)) = num_joysticks (snd (get_free_joystick s))"
  by (simp add: get_free_joystick_def MAX_JOYSTICKS_def set_slot_def Let_def split: option.splits)

lemma memset_key_history_num [simp]:
  "num_joysticks (memset_key_history n s) = num_joysticks s"
  by (simp add: memset_key_history_def set_slot_def)

lemma open_joystick_slot_num:
  assumes "joysticks t = joysticks s" "num_joysticks t = num_joysticks s"
  shows "num_joysticks (snd (open_joystick_slot K env d dn r t)) = num_joysticks (snd (get_free_joystick s))"
proof -
  define s3 where "s3 = snd (ioctl_or (JSIOCGNAME env) []
      (snd (ioctl_or (JSIOCGBUTTONS env) 0 (snd (ioctl_or (JSIOCGAXES env) 0 t)))))"
  have c: "num_joysticks (snd (get_free_joystick s3)) = num_joysticks (snd (get_free_joystick s))"
    using assms by (intro get_free_joystick_num_cong) (simp_all add: s3_def)
  have "num_joysticks (snd (open_joystick_slot K env d dn r t)) = num_joysticks (snd (get_free_joystick s3))"
    unfolding s3_def
    by (simp add: open_joystick_slot_def case_prod_beta Let_def set_slot_def sys_close_def
        split: option.splits)
  with c show ?thesis by simp
qed

lemma open_joystick_num:
  "num_joysticks (snd (open_joystick K env dn r chk s)) = num_joysticks s
   \<or> num_joysticks (snd (open_joystick K env dn r chk s)) = num_joysticks (snd (get_free_joystick s))"
  by (simp add: open_joystick_def Let_def sys_close_def open_joystick_slot_num
      split: sysres.splits)

text \<open>
  C10. In every run from the initial state, also one that fills the table,
  \<^verbatim>\<open>num_joysticks\<close> is at most \<^verbatim>\<open>MAX_JOYSTICKS\<close>. Only \<^verbatim>\<open>input_reset\<close> makes the count smaller
  (it sets it to 0); \<^verbatim>\<open>get_free_joystick\<close> leaves it or, when it is below
  \<^verbatim>\<open>MAX_JOYSTICKS\<close>, adds one, and \<^verbatim>\<open>open_joystick\<close> changes it only as its call of
  \<^verbatim>\<open>get_free_joystick\<close> does. \<^verbatim>\<open>count_joysticks\<close> is the number of slots below
  \<^verbatim>\<open>num_joysticks\<close> whose descriptor is not \<open>-1\<close>, hence at most \<^verbatim>\<open>num_joysticks\<close>.
\<close>

theorem num_joysticks_bounded:
  assumes r: "run K ops (init_state N H) = Some s"
  shows "num_joysticks s \<le> MAX_JOYSTICKS s \<and> MAX_JOYSTICKS s = N
       \<and> (\<forall>x s'. step K x s = Some s' \<and> num_joysticks s' < num_joysticks s \<longrightarrow> x = InputReset)
       \<and> num_joysticks (input_reset s) = 0
       \<and> (num_joysticks (snd (get_free_joystick s)) = num_joysticks s
          \<or> num_joysticks s < MAX_JOYSTICKS s
            \<and> num_joysticks (snd (get_free_joystick s)) = Suc (num_joysticks s))
       \<and> (\<forall>env dn st_rdev chk.
            num_joysticks (snd (open_joystick K env dn st_rdev chk s)) = num_joysticks s
            \<or> num_joysticks (snd (open_joystick K env dn st_rdev chk s))
                = num_joysticks (snd (get_free_joystick s)))
       \<and> count_joysticks s = int (card {i. i < num_joysticks s \<and> fd (joysticks s ! i) \<noteq> - 1})
       \<and> count_joysticks s \<le> int (num_joysticks s)"
proof -
  from run_init [OF r] have ok: "registry_ok s" and m: "MAX_JOYSTICKS s = N"
    by simp_all
  have "x = InputReset" if "step K x s = Some s'" "num_joysticks s' < num_joysticks s" for x s'
    using step_effect [OF ok that(1)] that(2) by auto
  then show ?thesis
    using ok m input_reset_table [of s] get_free_joystick_num [of s] open_joystick_num [of K _ _ _ _ s]
      count_joysticks_card [of s] count_joysticks_le [of s]
    by (simp add: registry_ok_def)
qed

lemma run_one_open:
  "run keypad_bits [OpenJoystick (probe_ok 5) ''/dev/input/js0'' 1 False] (init_state 2 3) = Some one_open"
  by (simp add: one_open_def)

lemma run_sole_open:
  "run keypad_bits [OpenJoystick (probe_ok 5) ''/dev/input/js0'' 1 False] (init_state 1 3) = Some sole_open"
  by (simp add: sole_open_def)

theorem num_joysticks_bounded_witness:
  "num_joysticks one_open \<le> MAX_JOYSTICKS one_open \<and> MAX_JOYSTICKS one_open = 2
   \<and> num_joysticks one_open = 1 \<and> count_joysticks one_open = 1
   \<and> num_joysticks (input_reset one_open) = 0
   \<and> num_joysticks sole_open = 1 \<and> MAX_JOYSTICKS sole_open = 1
   \<and> num_joysticks (snd (get_free_joystick sole_open)) = 1"
proof -
  have n: "num_joysticks one_open = 1" and c: "fd (joysticks one_open ! 0) \<noteq> - 1"
    unfolding one_open_def by code_simp+
  have m: "num_joysticks sole_open = 1"
    unfolding sole_open_def by code_simp
  have "{i. i < num_joysticks one_open \<and> fd (joysticks one_open ! i) \<noteq> - 1} = {0}"
    using n c by auto
  with num_joysticks_bounded [OF run_one_open] n
  have one: "num_joysticks one_open \<le> MAX_JOYSTICKS one_open \<and> MAX_JOYSTICKS one_open = 2
      \<and> count_joysticks one_open = 1 \<and> num_joysticks (input_reset one_open) = 0"
    by simp
  from num_joysticks_bounded [OF run_sole_open]
  have "MAX_JOYSTICKS sole_open = 1"
    and "num_joysticks (snd (get_free_joystick sole_open)) = num_joysticks sole_open
          \<or> num_joysticks sole_open < MAX_JOYSTICKS sole_open
            \<and> num_joysticks (snd (get_free_joystick sole_open)) = Suc (num_joysticks sole_open)"
    by blast+
  with m have "MAX_JOYSTICKS sole_open = 1 \<and> num_joysticks (snd (get_free_joystick sole_open)) = 1"
    by auto
  with one n m show ?thesis
    by simp
qed

text \<open>
  C1, as it is stated, fails: after two devices have been opened and the first one removed,
  slot 1 is active and holds player 2, although no other active slot holds player 1.
\<close>

theorem player_not_renumbered_counterexample:
  "map_option (\<lambda>s. (active s 1, player (joysticks s ! 1), held_by_other s 1 1, oob_write s))
     (run keypad_bits remove_first_ops (init_state 3 3))
   = Some (True, 2, False, False)"
  unfolding remove_first_ops_def
  by code_simp

text \<open>
  C1, amended. In every run from the initial state: \<^verbatim>\<open>get_available_player\<close> returns the
  smallest positive integer that no active slot holds, also when called right after
  \<^verbatim>\<open>get_free_joystick\<close>, with the slot to be populated still free; a successful
  \<^verbatim>\<open>open_joystick\<close> gives that number to a slot that was not active and changes neither
  the activity nor the player of any other slot; and the active slots hold different
  players. A player number is the least unused one when it is assigned; it is not
  assigned anew when another device is removed.
\<close>

theorem player_numbers_least_unused:
  assumes r: "run K ops (init_state N H) = Some s"
  shows "least_unused s (get_available_player s)
       \<and> least_unused s (get_available_player (snd (get_free_joystick s)))
       \<and> (\<forall>env dn st_rdev chk s'. open_joystick K env dn st_rdev chk s = (True, s') \<longrightarrow>
             (\<exists>i. opened s s' i))
       \<and> (\<forall>a b. active s a \<and> active s b \<and> a \<noteq> b \<longrightarrow>
             player (joysticks s ! a) \<noteq> player (joysticks s ! b))"
proof -
  from run_init [OF r] have ok: "registry_ok s"
    by simp
  then have zero: "active s 0 \<longrightarrow> player (joysticks s ! 0) = 1"
    and distinct: "\<forall>a b. active s a \<and> active s b \<and> a \<noteq> b \<longrightarrow>
             player (joysticks s ! a) \<noteq> player (joysticks s ! b)"
    by (simp_all add: registry_ok_def)
  have one: "least_unused s (get_available_player s)"
    using zero by (rule get_available_player_least)
  obtain slot s4 where g: "get_free_joystick s = (slot, s4)"
    by (cases "get_free_joystick s")
  have b: "num_joysticks s \<le> MAX_JOYSTICKS s"
    using ok by (simp add: registry_ok_def)
  from get_free_joystick_effect [OF b g] have sp: "same_players s s4"
    by blast
  have "registry_ok s4"
    using get_free_joystick_evolves [OF ok] g by (simp add: evolves_def)
  then have "least_unused s4 (get_available_player s4)"
    by (intro get_available_player_least) (simp add: registry_ok_def)
  then have two: "least_unused s (get_available_player (snd (get_free_joystick s)))"
    using same_players_least [OF sp] g by simp
  have three: "\<exists>i. opened s s' i" if "open_joystick K env dn st_rdev chk s = (True, s')"
    for env dn st_rdev chk s'
    using open_joystick_effect [OF ok that] by auto
  from one two three distinct show ?thesis
    by blast
qed

lemma run_first_of_three:
  "run keypad_bits [OpenJoystick (probe_ok 5) ''/dev/input/js0'' 1 False] (init_state 3 3)
     = Some first_of_three"
  by (simp add: first_of_three_def)

theorem player_numbers_least_unused_witness:
  "least_unused first_of_three 2 \<and> get_available_player first_of_three = 2
   \<and> get_available_player (snd (get_free_joystick first_of_three)) = 2
   \<and> (\<exists>i. opened first_of_three
          (snd (open_joystick keypad_bits (probe_ok 6) ''/dev/input/js1'' 2 True first_of_three)) i)
   \<and> \<not> oob_write (snd (open_joystick keypad_bits (probe_ok 6) ''/dev/input/js1'' 2 True first_of_three))"
proof -
  have g: "get_available_player first_of_three = 2"
    "get_available_player (snd (get_free_joystick first_of_three)) = 2"
    and o: "fst (open_joystick keypad_bits (probe_ok 6) ''/dev/input/js1'' 2 True first_of_three)"
    and b: "\<not> oob_write (snd (open_joystick keypad_bits (probe_ok 6) ''/dev/input/js1'' 2 True first_of_three))"
    unfolding first_of_three_def by code_simp+
  from o have "open_joystick keypad_bits (probe_ok 6) ''/dev/input/js1'' 2 True first_of_three
      = (True, snd (open_joystick keypad_bits (probe_ok 6) ''/dev/input/js1'' 2 True first_of_three))"
    by (simp add: prod_eq_iff)
  with player_numbers_least_unused [OF run_first_of_three] g b show ?thesis
    by auto
qed

subsection \<open>input_reset\<close>

lemma fold_close_slot:
  "n \<le> length (joysticks s) \<Longrightarrow>
   (\<forall>i<n. fd (joysticks (fold close_slot [0..<n] s) ! i) = - 1)
   \<and> (\<forall>i\<ge>n. joysticks (fold close_slot [0..<n] s) ! i = joysticks s ! i)
   \<and> length (joysticks (fold close_slot [0..<n] s)) = length (joysticks s)
   \<and> open_fds (fold close_slot [0..<n] s)
       = open_fds s - {fd (joysticks s ! i) |i. i < n \<and> fd (joysticks s ! i) \<noteq> - 1}"
proof (induction n)
  case 0
  show ?case by simp
next
  case (Suc n)
  define t where "t = fold close_slot [0..<n] s"
  from Suc have ih: "\<forall>i<n. fd (joysticks t ! i) = - 1" "\<forall>i\<ge>n. joysticks t ! i = joysticks s ! i"
    "length (joysticks t) = length (joysticks s)"
    "open_fds t = open_fds s - {fd (joysticks s ! i) |i. i < n \<and> fd (joysticks s ! i) \<noteq> - 1}"
    and n: "n < length (joysticks s)"
    by (simp_all add: t_def)
  have f: "fold close_slot [0..<Suc n] s = close_slot n t"
    by (simp add: t_def)
  have same: "joysticks t ! n = joysticks s ! n"
    using ih(2) by simp
  show ?case
  proof (cases "fd (joysticks s ! n) = - 1")
    case True
    then have c: "close_slot n t = t"
      by (simp add: close_slot_def same)
    have "{fd (joysticks s ! i) |i. i < Suc n \<and> fd (joysticks s ! i) \<noteq> - 1}
        = {fd (joysticks s ! i) |i. i < n \<and> fd (joysticks s ! i) \<noteq> - 1}"
      using True by (auto simp: less_Suc_eq)
    with ih True same show ?thesis
      unfolding f c by (auto simp: less_Suc_eq)
  next
    case False
    then have c: "close_slot n t = t\<lparr>open_fds := open_fds t - {fd (joysticks s ! n)},
        joysticks := (joysticks t)[n := (joysticks t ! n)\<lparr>fd := - 1\<rparr>]\<rparr>"
      by (simp add: close_slot_def same set_slot_def sys_close_def)
    have "{fd (joysticks s ! i) |i. i < Suc n \<and> fd (joysticks s ! i) \<noteq> - 1}
        = insert (fd (joysticks s ! n)) {fd (joysticks s ! i) |i. i < n \<and> fd (joysticks s ! i) \<noteq> - 1}"
      using False by (auto simp: less_Suc_eq)
    then have o: "open_fds (close_slot n t)
        = open_fds s - {fd (joysticks s ! i) |i. i < Suc n \<and> fd (joysticks s ! i) \<noteq> - 1}"
      using ih(4) by (auto simp: c)
    have a: "\<forall>i<Suc n. fd (joysticks (close_slot n t) ! i) = - 1"
      using ih(1,3) n by (auto simp: c less_Suc_eq nth_list_update)
    have b: "\<forall>i\<ge>Suc n. joysticks (close_slot n t) ! i = joysticks s ! i"
      using ih(2) by (simp add: c)
    show ?thesis
      unfolding f using a b o ih(3) by (simp add: c)
  qed
qed

lemma fold_close_slot_udev:
  "udev_ctx (fold close_slot xs s) = udev_ctx s \<and> udev_monitor (fold close_slot xs s) = udev_monitor s
   \<and> udev_refs (fold close_slot xs s) = udev_refs s"
  by (induction xs arbitrary: s) (simp_all add: close_slot_def set_slot_def sys_close_def)

lemma release_udev_joysticks [simp]:
  "joysticks (release_udev s) = joysticks s" "open_fds (release_udev s) = open_fds s"
  "num_joysticks (release_udev s) = num_joysticks s"
  by (simp_all add: release_udev_def udev_unref_def Let_def split: option.splits)

lemma release_udev_released:
  "udev_monitor s \<noteq> None \<longrightarrow> udev_ctx s \<noteq> None \<Longrightarrow>
   udev_ctx (release_udev s) = None \<and> udev_monitor (release_udev s) = None
   \<and> (\<forall>h. udev_ctx s = Some h \<or> udev_monitor s = Some h \<longrightarrow> h \<notin> udev_refs (release_udev s))"
  by (auto simp: release_udev_def udev_unref_def Let_def split: option.splits)

lemma release_udev_idem:
  "udev_ctx s = None \<Longrightarrow> release_udev s = s"
  by (simp add: release_udev_def)

lemma udev_ctx_release_udev [simp]: "udev_ctx (release_udev s) = None"
  by (simp add: release_udev_def udev_unref_def Let_def split: option.splits)

lemma num_joysticks_update_same:
  "num_joysticks (s::state) = n \<Longrightarrow> s\<lparr>num_joysticks := n\<rparr> = s"
  by (cases s) simp

lemma input_reset_idem: "input_reset (input_reset s) = input_reset s"
proof -
  define t where "t = input_reset s"
  have n: "num_joysticks t = 0" and c: "udev_ctx t = None"
    by (simp_all add: t_def input_reset_def Let_def)
  have "input_reset t = release_udev (t\<lparr>num_joysticks := 0\<rparr>)"
    by (simp add: input_reset_def [of t] n Let_def)
  also have "\<dots> = release_udev t"
    using n by (simp add: num_joysticks_update_same)
  also have "\<dots> = t"
    using c by (rule release_udev_idem)
  finally show ?thesis
    by (simp add: t_def)
qed

lemma input_reset_init: "input_reset (init_state N H) = init_state N H"
  by (simp add: input_reset_def init_state_def release_udev_def)

lemma run_hotplug_on:
  "run keypad_bits
     [OpenJoystick (probe_ok 5) ''/dev/input/js0'' 1 False, InitUdevHotplug enumerate_none]
     (init_state 2 3) = Some hotplug_on"
proof -
  have c: "udev_ctx one_open = None" and r: "udev_refs one_open = {}"
    unfolding one_open_def by code_simp+
  have "release_udev one_open = one_open"
    using c by (rule release_udev_idem)
  then have "init_udev_hotplug keypad_bits enumerate_none one_open = Some hotplug_on"
    by (simp add: init_udev_hotplug_def enumerate_none_def hotplug_on_def r insert_commute)
  then show ?thesis
    unfolding one_open_def by simp
qed

lemma input_reset_closes:
  "(num_joysticks s \<le> MAX_JOYSTICKS s \<and> (udev_monitor s \<noteq> None \<longrightarrow> udev_ctx s \<noteq> None) \<longrightarrow>
      num_joysticks (input_reset s) = 0 \<and> count_joysticks (input_reset s) = 0
      \<and> udev_ctx (input_reset s) = None \<and> udev_monitor (input_reset s) = None
      \<and> (\<forall>i<num_joysticks s. fd (joysticks (input_reset s) ! i) = - 1
            \<and> (fd (joysticks s ! i) \<noteq> - 1 \<longrightarrow> fd (joysticks s ! i) \<notin> open_fds (input_reset s)))
      \<and> (\<forall>h. udev_ctx s = Some h \<or> udev_monitor s = Some h \<longrightarrow> h \<notin> udev_refs (input_reset s)))
   \<and> input_reset (input_reset s) = input_reset s
   \<and> input_reset (init_state N H) = init_state N H"
proof -
  define s1 where "s1 = fold close_slot [0..<num_joysticks s] s"
  have r: "input_reset s = release_udev (s1\<lparr>num_joysticks := 0\<rparr>)"
    by (simp add: input_reset_def s1_def Let_def)
  have main: "num_joysticks (input_reset s) = 0 \<and> count_joysticks (input_reset s) = 0
      \<and> udev_ctx (input_reset s) = None \<and> udev_monitor (input_reset s) = None
      \<and> (\<forall>i<num_joysticks s. fd (joysticks (input_reset s) ! i) = - 1
            \<and> (fd (joysticks s ! i) \<noteq> - 1 \<longrightarrow> fd (joysticks s ! i) \<notin> open_fds (input_reset s)))
      \<and> (\<forall>h. udev_ctx s = Some h \<or> udev_monitor s = Some h \<longrightarrow> h \<notin> udev_refs (input_reset s))"
    if b: "num_joysticks s \<le> MAX_JOYSTICKS s" and u: "udev_monitor s \<noteq> None \<longrightarrow> udev_ctx s \<noteq> None"
  proof -
    from b have "num_joysticks s \<le> length (joysticks s)"
      by (simp add: MAX_JOYSTICKS_def)
    from fold_close_slot [OF this]
    have fds: "\<forall>i<num_joysticks s. fd (joysticks s1 ! i) = - 1"
      and op: "open_fds s1 = open_fds s
          - {fd (joysticks s ! i) |i. i < num_joysticks s \<and> fd (joysticks s ! i) \<noteq> - 1}"
      by (simp_all add: s1_def)
    have ud: "udev_ctx s1 = udev_ctx s" "udev_monitor s1 = udev_monitor s" "udev_refs s1 = udev_refs s"
      using fold_close_slot_udev [of "[0..<num_joysticks s]" s] by (simp_all add: s1_def)
    have n0: "num_joysticks (input_reset s) = 0"
      by (simp add: r)
    then have c0: "count_joysticks (input_reset s) = 0"
      by (simp add: count_joysticks_def)
    have closed: "fd (joysticks (input_reset s) ! i) = - 1
            \<and> (fd (joysticks s ! i) \<noteq> - 1 \<longrightarrow> fd (joysticks s ! i) \<notin> open_fds (input_reset s))"
      if "i < num_joysticks s" for i
      using that fds op by (auto simp: r)
    have rel: "udev_ctx (input_reset s) = None \<and> udev_monitor (input_reset s) = None
      \<and> (\<forall>h. udev_ctx s = Some h \<or> udev_monitor s = Some h \<longrightarrow> h \<notin> udev_refs (input_reset s))"
      unfolding r using release_udev_released [of "s1\<lparr>num_joysticks := 0\<rparr>"] u ud by simp
    from n0 c0 closed rel show ?thesis by blast
  qed
  with input_reset_idem [of s] input_reset_init [of N H] show ?thesis
    by blast
qed

lemma fd_update_same: "fd (j::joystick) = d \<Longrightarrow> j\<lparr>fd := d\<rparr> = j"
  by (cases j) simp

lemma fold_close_slot_records:
  "n \<le> length (joysticks s) \<Longrightarrow>
   \<forall>i<n. joysticks (fold close_slot [0..<n] s) ! i = (joysticks s ! i)\<lparr>fd := - 1\<rparr>"
proof (induction n)
  case 0
  show ?case by simp
next
  case (Suc n)
  define t where "t = fold close_slot [0..<n] s"
  from Suc have ih: "\<forall>i<n. joysticks t ! i = (joysticks s ! i)\<lparr>fd := - 1\<rparr>"
    and n: "n < length (joysticks s)"
    by (simp_all add: t_def)
  from fold_close_slot [of n s] n have same: "joysticks t ! n = joysticks s ! n"
    and len: "length (joysticks t) = length (joysticks s)"
    by (simp_all add: t_def)
  have f: "fold close_slot [0..<Suc n] s = close_slot n t"
    by (simp add: t_def)
  have at_n: "joysticks (close_slot n t) ! n = (joysticks s ! n)\<lparr>fd := - 1\<rparr>"
    using n len same by (simp add: close_slot_def set_slot_def sys_close_def fd_update_same)
  have below: "joysticks (close_slot n t) ! i = joysticks t ! i" if "i < n" for i
    using that by (simp add: close_slot_def set_slot_def sys_close_def)
  show ?case
    unfolding f using ih at_n below by (auto simp: less_Suc_eq)
qed

lemma fold_close_slot_rest:
  "errno (fold close_slot xs s) = errno s \<and> oob_write (fold close_slot xs s) = oob_write s"
  by (induction xs arbitrary: s) (simp_all add: close_slot_def set_slot_def sys_close_def)

lemma release_udev_rest [simp]:
  "errno (release_udev s) = errno s" "oob_write (release_udev s) = oob_write s"
  by (simp_all add: release_udev_def udev_unref_def Let_def split: option.splits)

text \<open>
  C9, as it is stated, fails: after one device has been opened, \<^verbatim>\<open>input_reset\<close> does not
  give back the initial state. Slot 0 keeps the path and the player of the device, with
  its descriptor at \<open>-1\<close>, where the initial table is all zero; and after a LEFT press the
  slot keeps its history through the reset.
\<close>

theorem input_reset_keeps_slot_records:
  "input_reset one_open \<noteq> init_state 2 3
   \<and> fd (joysticks (input_reset one_open) ! 0) = - 1
   \<and> devnode (joysticks (input_reset one_open) ! 0) = ''/dev/input/js0''
   \<and> player (joysticks (input_reset one_open) ! 0) = 1
   \<and> joysticks (init_state 2 3) ! 0 = zero_joystick 3
   \<and> key_history (joysticks (input_reset left_pressed) ! 0) = [4, 0, 0]"
proof -
  have a: "fd (joysticks (input_reset one_open) ! 0) = - 1"
    "devnode (joysticks (input_reset one_open) ! 0) = ''/dev/input/js0''"
    "player (joysticks (input_reset one_open) ! 0) = 1"
    unfolding one_open_def by code_simp+
  have h: "key_history (joysticks (input_reset left_pressed) ! 0) = [4, 0, 0]"
    unfolding left_pressed_def one_open_def by code_simp
  have z: "joysticks (init_state 2 3) ! 0 = zero_joystick 3"
    by (simp add: init_state_def)
  then have "fd (joysticks (init_state 2 3) ! 0) = 0"
    by (simp add: zero_joystick_def)
  with a(1) have "input_reset one_open \<noteq> init_state 2 3"
    by auto
  with a h z show ?thesis
    by simp
qed

text \<open>
  C9, amended. In a state whose count is within the array and that has no monitor without
  a context (every state of a run is such a state), \<^verbatim>\<open>input_reset\<close> closes the descriptor
  of every active slot and sets the descriptor of every slot below the count to \<open>-1\<close>,
  leaves \<^verbatim>\<open>num_joysticks\<close> at 0, so that \<^verbatim>\<open>count_joysticks\<close> is 0 and no slot is active,
  releases the monitor and the context and nulls both pointers. It changes nothing else
  in the table: every slot keeps its other fields (path, device number, player, key
  state, last key, history), so the table is not the zeroed table of the initial state.
  A second \<^verbatim>\<open>input_reset\<close> changes nothing, and neither does one on the initial state.
\<close>

theorem input_reset_effect:
  "(num_joysticks s \<le> MAX_JOYSTICKS s \<and> (udev_monitor s \<noteq> None \<longrightarrow> udev_ctx s \<noteq> None) \<longrightarrow>
      num_joysticks (input_reset s) = 0 \<and> count_joysticks (input_reset s) = 0
      \<and> (\<forall>k. \<not> active (input_reset s) k)
      \<and> udev_ctx (input_reset s) = None \<and> udev_monitor (input_reset s) = None
      \<and> (\<forall>i<num_joysticks s. fd (joysticks (input_reset s) ! i) = - 1
            \<and> (fd (joysticks s ! i) \<noteq> - 1 \<longrightarrow> fd (joysticks s ! i) \<notin> open_fds (input_reset s)))
      \<and> (\<forall>h. udev_ctx s = Some h \<or> udev_monitor s = Some h \<longrightarrow> h \<notin> udev_refs (input_reset s))
      \<and> length (joysticks (input_reset s)) = length (joysticks s)
      \<and> (\<forall>i<num_joysticks s. joysticks (input_reset s) ! i = (joysticks s ! i)\<lparr>fd := - 1\<rparr>)
      \<and> (\<forall>i\<ge>num_joysticks s. joysticks (input_reset s) ! i = joysticks s ! i)
      \<and> errno (input_reset s) = errno s \<and> oob_write (input_reset s) = oob_write s)
   \<and> input_reset (input_reset s) = input_reset s
   \<and> input_reset (init_state N H) = init_state N H"
proof -
  define s1 where "s1 = fold close_slot [0..<num_joysticks s] s"
  have r: "input_reset s = release_udev (s1\<lparr>num_joysticks := 0\<rparr>)"
    by (simp add: input_reset_def s1_def Let_def)
  have keep: "length (joysticks (input_reset s)) = length (joysticks s)
      \<and> (\<forall>i<num_joysticks s. joysticks (input_reset s) ! i = (joysticks s ! i)\<lparr>fd := - 1\<rparr>)
      \<and> (\<forall>i\<ge>num_joysticks s. joysticks (input_reset s) ! i = joysticks s ! i)
      \<and> errno (input_reset s) = errno s \<and> oob_write (input_reset s) = oob_write s
      \<and> (\<forall>k. \<not> active (input_reset s) k)"
    if b: "num_joysticks s \<le> MAX_JOYSTICKS s"
  proof -
    from b have l: "num_joysticks s \<le> length (joysticks s)"
      by (simp add: MAX_JOYSTICKS_def)
    from fold_close_slot [OF l] fold_close_slot_records [OF l] fold_close_slot_rest [of "[0..<num_joysticks s]" s]
    show ?thesis
      by (simp add: r s1_def [symmetric] active_def)
  qed
  from input_reset_closes [of s N H] keep show ?thesis
    by blast
qed

theorem input_reset_effect_witness:
  "num_joysticks (input_reset hotplug_on) = 0 \<and> count_joysticks (input_reset hotplug_on) = 0
   \<and> udev_ctx (input_reset hotplug_on) = None \<and> udev_monitor (input_reset hotplug_on) = None
   \<and> fd (joysticks (input_reset hotplug_on) ! 0) = - 1
   \<and> 5 \<notin> open_fds (input_reset hotplug_on)
   \<and> 1 \<notin> udev_refs (input_reset hotplug_on) \<and> 2 \<notin> udev_refs (input_reset hotplug_on)
   \<and> joysticks (input_reset hotplug_on) ! 0 = (joysticks hotplug_on ! 0)\<lparr>fd := - 1\<rparr>
   \<and> joysticks (input_reset hotplug_on) ! 1 = joysticks hotplug_on ! 1
   \<and> input_reset (input_reset hotplug_on) = input_reset hotplug_on
   \<and> input_reset (init_state 2 3) = init_state 2 3"
proof -
  have a: "num_joysticks hotplug_on = 1" "num_joysticks hotplug_on \<le> MAX_JOYSTICKS hotplug_on"
    "fd (joysticks hotplug_on ! 0) = 5"
    unfolding hotplug_on_def one_open_def by code_simp+
  have u: "udev_ctx hotplug_on = Some 1" "udev_monitor hotplug_on = Some 2"
    by (simp_all add: hotplug_on_def)
  from input_reset_effect [of hotplug_on 2 3] a u show ?thesis
    by simp
qed

end
